theory Spec2Isabelle
  imports
    Complex_Main
    "HOL-Library.AList"
    "HOL-Library.Log_Nat"
    "HOL-Library.Multiset"
    "HOL-Library.Char_ord"
    "HOL-Library.List_Lexorder"
begin

section \<open>Daily missing-data catalog (missing\_gen.py)\<close>

text \<open>
  A shallow embedding of \<^verbatim>\<open>src/narration/code/missing_gen.py\<close>: the per-file
  analysis \<^verbatim>\<open>analyze_netcdf_file\<close> and the aggregation loop of
  \<^verbatim>\<open>create_daily_catalog\<close>.

  What lies outside the script is an input of the model:
  \<^item> the file system and xarray: which folders exist, what \<^verbatim>\<open>glob('*.nc')\<close> lists
    (in the order it lists it) and what \<^verbatim>\<open>xr.open_dataset\<close> yields for a path
    (an exception or a dataset);
  \<^item> the clock (\<^verbatim>\<open>datetime.now().isoformat()\<close>);
  \<^item> the order in which Python iterates over a \<^verbatim>\<open>set\<close> of strings.

  The process pool only maps a pure function over the file list and
  \<^verbatim>\<open>executor.map\<close> hands the results back in the order of its inputs, so it is
  modelled as \<open>map\<close>.

  A grid value is not-a-number, an infinity or the rational that the stored number
  denotes; grid values are only tested and compared, never computed with. The
  percentage of line 62 is computed in binary floating-point arithmetic, which is
  modelled exactly (see below). Arrays are taken to be of a numeric dtype and
  attribute values to be numeric scalars.

  Console output is not part of the model: every \<^verbatim>\<open>print\<close> is taken to succeed. The
  exceptions of the model are those that \<^verbatim>\<open>except Exception\<close> catches;
  \<^verbatim>\<open>KeyboardInterrupt\<close> and \<^verbatim>\<open>SystemExit\<close>, which it lets through, are not an
  outcome of any modelled operation.
\<close>

subsection \<open>Exceptions\<close>

datatype error = OSError | ValueError | AttributeError | IndexError | KeyError

subsection \<open>Grid values and arrays\<close>

datatype cell = NaN | PosInf | NegInf | Num rat

text \<open>\<^verbatim>\<open>np.isnan\<close> on one element.\<close>

fun np_isnan :: "cell \<Rightarrow> bool" where
  "np_isnan NaN = True"
| "np_isnan _ = False"

text \<open>The comparison \<^verbatim>\<open>==\<close> of two floating-point values: not-a-number equals nothing,
  itself included.\<close>

fun np_eq :: "cell \<Rightarrow> cell \<Rightarrow> bool" where
  "np_eq NaN _ = False"
| "np_eq _ NaN = False"
| "np_eq a b = (a = b)"

text \<open>A numpy array: its shape and its elements in row-major order.\<close>

record 'a ndarray =
  shape :: "nat list"
  flat :: "'a list"

definition nd_size :: "'a ndarray \<Rightarrow> nat" where
  "nd_size a = prod_list (shape a)"

text \<open>\<^verbatim>\<open>a[i]\<close> for an index \<open>i\<close> along the first axis.\<close>

definition nd_index :: "'a ndarray \<Rightarrow> nat \<Rightarrow> 'a ndarray" where
  "nd_index a i =
     (let n = prod_list (tl (shape a))
      in \<lparr>shape = tl (shape a), flat = take n (drop (i * n) (flat a))\<rparr>)"

definition nd_map :: "('a \<Rightarrow> 'b) \<Rightarrow> 'a ndarray \<Rightarrow> 'b ndarray" where
  "nd_map f a = \<lparr>shape = shape a, flat = map f (flat a)\<rparr>"

text \<open>The in-place \<^verbatim>\<open>a |= b\<close> of two boolean arrays.\<close>

definition nd_or :: "bool ndarray \<Rightarrow> bool ndarray \<Rightarrow> bool ndarray" where
  "nd_or a b = \<lparr>shape = shape a, flat = map2 (\<or>) (flat a) (flat b)\<rparr>"

definition count_nonzero :: "bool ndarray \<Rightarrow> int" where
  "count_nonzero m = int (length (filter (\<lambda>b. b) (flat m)))"

subsection \<open>The dataset that xarray hands over\<close>

text \<open>
  A variable of the dataset: \<^verbatim>\<open>.values\<close> (reading it can fail) and \<^verbatim>\<open>.attrs\<close>.
\<close>

record data_var =
  var_values :: "error + cell ndarray"
  var_attrs :: "string \<rightharpoonup> cell"

text \<open>
  \<open>ds_variables\<close> is \<^verbatim>\<open>ds.variables\<close> in its iteration order. \<open>time_dates\<close> is
  \<^verbatim>\<open>ds.time.values\<close>, each timestamp already rendered by
  \<^verbatim>\<open>pd.Timestamp(...).strftime('%Y-%m-%d')\<close>; it is \<open>None\<close> when the dataset has
  no \<^verbatim>\<open>time\<close>.
\<close>

record dataset =
  ds_variables :: "(string \<times> data_var) list"
  time_dates :: "string list option"

text \<open>A path: \<^verbatim>\<open>Path(p).parent.name\<close> and \<^verbatim>\<open>Path(p).name\<close>.\<close>

record nc_path =
  parent_name :: string
  file_name :: string

subsection \<open>analyze\_netcdf\_file\<close>

record day_stats =
  missing_count :: int
  total_points :: int
  missing_percentage :: rat

record file_result =
  variable :: string
  filename :: string
  stats :: "(string \<times> day_stats) list"

definition exclude_vars :: "string list" where
  "exclude_vars = [''time'', ''lat'', ''lon'', ''x'', ''y'', ''Lambert_Conformal'',
                   ''time_bnds'', ''nbnds'']"

definition main_vars :: "dataset \<Rightarrow> string list" where
  "main_vars ds = filter (\<lambda>v. v \<notin> set exclude_vars) (map fst (ds_variables ds))"

text \<open>Lines 33 to 37: the fill value from the attributes of the main variable.\<close>

definition fill_value_of :: "(string \<rightharpoonup> cell) \<Rightarrow> cell option" where
  "fill_value_of attrs =
     (if ''_FillValue'' \<in> dom attrs then attrs ''_FillValue''
      else if ''missing_value'' \<in> dom attrs then attrs ''missing_value''
      else None)"

text \<open>Lines 48 to 50: the mask of the missing points of one time slice.\<close>

definition missing_mask :: "cell ndarray \<Rightarrow> cell option \<Rightarrow> bool ndarray" where
  "missing_mask time_slice fill_value =
     (let mask = nd_map np_isnan time_slice
      in case fill_value of
           None \<Rightarrow> mask
         | Some fv \<Rightarrow> nd_or mask (nd_map (\<lambda>x. np_eq x fv) time_slice))"

subsection \<open>Binary floating-point arithmetic\<close>

text \<open>
  A Python \<^verbatim>\<open>float\<close> is an IEEE 754 binary64 number and is modelled as the rational it
  denotes. Every operation gives the exact result rounded to the nearest number with
  a significand of 53 bits, a tie going to the one with the even significand. The
  range of the exponent is not bounded in the model (no overflow, no subnormal
  numbers): the operands of line 62 are counts of grid points, their quotient and 100.
\<close>

definition round_half_even :: "rat \<Rightarrow> int" where
  "round_half_even x =
     (let f = \<lfloor>x\<rfloor>; d = x - of_int f
      in if d < 1 / 2 then f
         else if 1 / 2 < d then f + 1
         else if even f then f else f + 1)"

definition pow2 :: "int \<Rightarrow> rat" where
  "pow2 e = (if 0 \<le> e then 2 ^ nat e else 1 / 2 ^ nat (- e))"

text \<open>The exponent \<open>e\<close> of a number other than zero: \<open>2\<^sup>e \<le> \<bar>x\<bar> < 2\<^sup>e\<^sup>+\<^sup>1\<close>.\<close>

definition binade :: "rat \<Rightarrow> int" where
  "binade x =
     (let (a, b) = quotient_of \<bar>x\<bar>;
          e = bitlen a - bitlen b
      in if pow2 e \<le> \<bar>x\<bar> then e else e - 1)"

text \<open>Rounding to binary64: to the nearest multiple of \<open>2\<^sup>e\<^sup>-\<^sup>5\<^sup>2\<close>.\<close>

definition fl :: "rat \<Rightarrow> rat" where
  "fl x =
     (if x = 0 then 0
      else let ulp = pow2 (binade x - 52)
           in of_int (round_half_even (x / ulp)) * ulp)"

text \<open>\<^verbatim>\<open>float(n)\<close>, and an integer operand of a floating-point operation.\<close>

definition float_of_int :: "int \<Rightarrow> rat" where
  "float_of_int n = fl (of_int n)"

definition float_div :: "rat \<Rightarrow> rat \<Rightarrow> rat" where
  "float_div x y = fl (x / y)"

definition float_mul :: "rat \<Rightarrow> rat \<Rightarrow> rat" where
  "float_mul x y = fl (x * y)"

text \<open>
  Python's \<^verbatim>\<open>round(x, 2)\<close> on a float: the exact value of \<open>x\<close> is rounded to the
  nearest multiple of one hundredth, a tie going to the even one, and the result is
  the float nearest to that decimal number.
\<close>

definition py_round2 :: "rat \<Rightarrow> rat" where
  "py_round2 x = fl (of_int (round_half_even (x * 100)) / 100)"

text \<open>
  Lines 44 to 63: the loop over the time indices. A Python dict keeps its keys in
  insertion order and assigning to a key that is there replaces its value in place,
  which is \<open>AList.update\<close>.
\<close>

fun daily_loop ::
  "cell ndarray \<Rightarrow> cell option \<Rightarrow> string list option \<Rightarrow> nat list \<Rightarrow>
   (string \<times> day_stats) list \<Rightarrow> error + (string \<times> day_stats) list" where
  "daily_loop data fill_value dates [] daily_stats = Inr daily_stats"
| "daily_loop data fill_value dates (time_idx # rest) daily_stats =
     (let time_slice = nd_index data time_idx;
          mask = missing_mask time_slice fill_value;
          mc = count_nonzero mask;
          tp = int (nd_size time_slice)
      in if 0 < mc then
           (case dates of
              None \<Rightarrow> Inl AttributeError
            | Some ts \<Rightarrow>
                if time_idx < length ts then
                  daily_loop data fill_value dates rest
                    (AList.update (ts ! time_idx)
                       \<lparr>missing_count = mc, total_points = tp,
                        missing_percentage =
                          py_round2 (float_mul (float_div (float_of_int mc)
                                                  (float_of_int tp)) 100)\<rparr>
                       daily_stats)
                else Inl IndexError)
         else daily_loop data fill_value dates rest daily_stats)"

text \<open>The body of the \<^verbatim>\<open>try\<close> block; \<open>Inl\<close> is an exception raised inside it.\<close>

definition analyze_body ::
  "(nc_path \<Rightarrow> error + dataset) \<Rightarrow> nc_path \<Rightarrow> error + file_result option" where
  "analyze_body open_dataset file_path =
     (case open_dataset file_path of
        Inl e \<Rightarrow> Inl e
      | Inr ds \<Rightarrow>
          (let var_name = parent_name file_path
           in case main_vars ds of
                [] \<Rightarrow> Inr None
              | main_var # _ \<Rightarrow>
                  (case map_of (ds_variables ds) main_var of
                     None \<Rightarrow> Inl KeyError
                   | Some v \<Rightarrow>
                       (case var_values v of
                          Inl e \<Rightarrow> Inl e
                        | Inr data \<Rightarrow>
                            (let fill_value = fill_value_of (var_attrs v)
                             in case (if length (shape data) = 3
                                      then daily_loop data fill_value (time_dates ds)
                                             [0..<hd (shape data)] []
                                      else Inr []) of
                                  Inl e \<Rightarrow> Inl e
                                | Inr daily_stats \<Rightarrow>
                                    Inr (Some \<lparr>variable = var_name,
                                               filename = file_name file_path,
                                               stats = daily_stats\<rparr>))))))"

text \<open>The \<^verbatim>\<open>except Exception\<close> clause turns every exception into \<^verbatim>\<open>None\<close>.\<close>

definition analyze_netcdf_file ::
  "(nc_path \<Rightarrow> error + dataset) \<Rightarrow> nc_path \<Rightarrow> file_result option" where
  "analyze_netcdf_file open_dataset file_path =
     (case analyze_body open_dataset file_path of
        Inl e \<Rightarrow> None
      | Inr r \<Rightarrow> r)"

subsection \<open>create\_daily\_catalog\<close>

record 'a day_summary =
  total_missing :: int
  variables_affected :: 'a
  max_percentage :: rat

record metadata =
  created :: string
  base_path :: string
  variables_processed :: "string list"

text \<open>
  The catalog. Its dicts are maps: two Python dicts are equal when they hold the same
  values under the same keys, whatever the order of insertion. The type parameter is
  the type of \<^verbatim>\<open>variables_affected\<close>: a set while results are folded in, a list after
  the last loop.
\<close>

record 'a catalog =
  metadata :: metadata
  variables :: "string \<rightharpoonup> (string \<rightharpoonup> day_stats)"
  daily_summary :: "string \<rightharpoonup> 'a day_summary"

definition var_folders :: "string list" where
  "var_folders = [''air'', ''hgt'', ''omega'', ''shum'', ''tke'', ''uwnd'', ''vwnd'']"

text \<open>\<^verbatim>\<open>d.update(daily_stats)\<close>: every item of the result is stored, in order.\<close>

definition dict_update ::
  "(string \<rightharpoonup> day_stats) \<Rightarrow> (string \<times> day_stats) list \<Rightarrow> (string \<rightharpoonup> day_stats)" where
  "dict_update d items = foldl (\<lambda>m (k, v). m(k \<mapsto> v)) d items"

text \<open>Lines 119 to 132: one item of a result goes into the daily summary.\<close>

definition update_summary ::
  "string \<Rightarrow> (string \<rightharpoonup> string set day_summary) \<Rightarrow> string \<times> day_stats \<Rightarrow>
   (string \<rightharpoonup> string set day_summary)" where
  "update_summary var_name ds item =
     (let date = fst item; st = snd item;
          summary = (case ds date of
                       None \<Rightarrow> \<lparr>total_missing = 0, variables_affected = {},
                                max_percentage = 0\<rparr>
                     | Some s \<Rightarrow> s)
      in ds(date \<mapsto>
           \<lparr>total_missing = total_missing summary + missing_count st,
            variables_affected = insert var_name (variables_affected summary),
            max_percentage = max (max_percentage summary) (missing_percentage st)\<rparr>))"

text \<open>
  Lines 108 to 132: one result is folded into the catalog.
  \<^verbatim>\<open>catalog["variables"][var_name]\<close> raises \<^verbatim>\<open>KeyError\<close> for a variable that has no
  mapping yet.
\<close>

definition fold_result ::
  "string set catalog \<Rightarrow> file_result option \<Rightarrow> error + string set catalog" where
  "fold_result c result =
     (case result of
        None \<Rightarrow> Inr c
      | Some r \<Rightarrow>
          (case variables c (variable r) of
             None \<Rightarrow> Inl KeyError
           | Some d \<Rightarrow>
               Inr (c\<lparr>variables := (variables c)(variable r \<mapsto> dict_update d (stats r)),
                      daily_summary :=
                        foldl (update_summary (variable r)) (daily_summary c) (stats r)\<rparr>)))"

fun fold_results ::
  "string set catalog \<Rightarrow> file_result option list \<Rightarrow> error + string set catalog" where
  "fold_results c [] = Inr c"
| "fold_results c (result # results) =
     (case fold_result c result of
        Inl e \<Rightarrow> Inl e
      | Inr c' \<Rightarrow> fold_results c' results)"

text \<open>
  The file system as the script sees it: \<open>glob_nc\<close> is \<open>None\<close> for a folder that does
  not exist and else the names that \<^verbatim>\<open>glob('*.nc')\<close> lists there.
\<close>

record filesystem =
  glob_nc :: "string \<Rightarrow> string list option"
  xr_open_dataset :: "nc_path \<Rightarrow> error + dataset"

text \<open>Lines 92 to 132: the body of the loop over the variable folders.\<close>

definition process_folder ::
  "filesystem \<Rightarrow> string \<Rightarrow> string set catalog \<Rightarrow> error + string set catalog" where
  "process_folder fs var_folder c =
     (case glob_nc fs var_folder of
        None \<Rightarrow> Inr c
      | Some names \<Rightarrow>
          (let c1 = c\<lparr>metadata := (metadata c)\<lparr>variables_processed :=
                                     variables_processed (metadata c) @ [var_folder]\<rparr>,
                      variables := (variables c)(var_folder \<mapsto> Map.empty)\<rparr>;
               nc_files = map (\<lambda>n. \<lparr>parent_name = var_folder, file_name = n\<rparr>) names;
               results = map (analyze_netcdf_file (xr_open_dataset fs)) nc_files
           in fold_results c1 results))"

fun process_folders ::
  "filesystem \<Rightarrow> string list \<Rightarrow> string set catalog \<Rightarrow> error + string set catalog" where
  "process_folders fs [] c = Inr c"
| "process_folders fs (var_folder # rest) c =
     (case process_folder fs var_folder c of
        Inl e \<Rightarrow> Inl e
      | Inr c' \<Rightarrow> process_folders fs rest c')"

text \<open>
  Lines 135 to 138: every set becomes \<^verbatim>\<open>list(set)\<close>. \<open>set_iter\<close> is the order in which
  Python iterates over a set.
\<close>

definition finalize ::
  "(string set \<Rightarrow> string list) \<Rightarrow> string set catalog \<Rightarrow> string list catalog" where
  "finalize set_iter c =
     \<lparr>metadata = metadata c,
      variables = variables c,
      daily_summary =
        (\<lambda>date. case daily_summary c date of
                  None \<Rightarrow> None
                | Some s \<Rightarrow> Some \<lparr>total_missing = total_missing s,
                                  variables_affected = set_iter (variables_affected s),
                                  max_percentage = max_percentage s\<rparr>)\<rparr>"

definition empty_catalog :: "string \<Rightarrow> string \<Rightarrow> string set catalog" where
  "empty_catalog now bp =
     \<lparr>metadata = \<lparr>created = now, base_path = bp, variables_processed = []\<rparr>,
      variables = Map.empty,
      daily_summary = Map.empty\<rparr>"

definition create_daily_catalog ::
  "string \<Rightarrow> (string set \<Rightarrow> string list) \<Rightarrow> filesystem \<Rightarrow> string \<Rightarrow>
   error + string list catalog" where
  "create_daily_catalog now set_iter fs bp =
     (case process_folders fs var_folders (empty_catalog now bp) of
        Inl e \<Rightarrow> Inl e
      | Inr c \<Rightarrow> Inr (finalize set_iter c))"


section \<open>Notions used to state the properties\<close>

subsection \<open>One time index of the loop, on its own\<close>

text \<open>
  The quantities that one pass of the time loop computes (lines 45 to 63), named so
  that the result of the whole loop can be stated: the count of missing points of the
  slice, the entry that the pass stores, and the date under which it stores it.
\<close>

definition slice_missing :: "cell ndarray \<Rightarrow> cell option \<Rightarrow> nat \<Rightarrow> int" where
  "slice_missing data fill_value time_idx =
     count_nonzero (missing_mask (nd_index data time_idx) fill_value)"

definition slice_stats :: "cell ndarray \<Rightarrow> cell option \<Rightarrow> nat \<Rightarrow> day_stats" where
  "slice_stats data fill_value time_idx =
     (let mc = slice_missing data fill_value time_idx;
          tp = int (nd_size (nd_index data time_idx))
      in \<lparr>missing_count = mc, total_points = tp,
          missing_percentage =
            py_round2 (float_mul (float_div (float_of_int mc) (float_of_int tp)) 100)\<rparr>)"

definition date_at :: "string list option \<Rightarrow> nat \<Rightarrow> string option" where
  "date_at dates time_idx =
     (case dates of
        None \<Rightarrow> None
      | Some ts \<Rightarrow> if time_idx < length ts then Some (ts ! time_idx) else None)"

subsection \<open>The two halves of the loop body of the driver\<close>

text \<open>
  Lines 98 and 99: the folder is appended to \<^verbatim>\<open>variables_processed\<close> and gets an empty
  mapping. Lines 102 to 104: the results of the files of a folder, in the order of
  \<^verbatim>\<open>glob\<close>.
\<close>

definition register :: "string \<Rightarrow> string set catalog \<Rightarrow> string set catalog" where
  "register var_folder c =
     c\<lparr>metadata := (metadata c)\<lparr>variables_processed :=
                                 variables_processed (metadata c) @ [var_folder]\<rparr>,
       variables := (variables c)(var_folder \<mapsto> Map.empty)\<rparr>"

definition folder_results :: "filesystem \<Rightarrow> string \<Rightarrow> file_result option list" where
  "folder_results fs var_folder =
     (case glob_nc fs var_folder of
        None \<Rightarrow> []
      | Some names \<Rightarrow>
          map (analyze_netcdf_file (xr_open_dataset fs))
            (map (\<lambda>n. \<lparr>parent_name = var_folder, file_name = n\<rparr>) names))"

subsection \<open>What a sequence of results contributes\<close>

text \<open>
  The items of a list of results, each with the variable of its result, in the order in
  which the aggregation loop meets them; the items that a list of results holds for one
  variable and date; a collision is a key with more than one of them.
\<close>

type_synonym entry = "string \<times> string \<times> day_stats"

definition result_entries :: "file_result option \<Rightarrow> entry list" where
  "result_entries result =
     (case result of
        None \<Rightarrow> []
      | Some r \<Rightarrow> map (Pair (variable r)) (stats r))"

definition entries :: "file_result option list \<Rightarrow> entry list" where
  "entries results = concat (map result_entries results)"

definition providers :: "file_result option list \<Rightarrow> string \<Rightarrow> string \<Rightarrow> entry list" where
  "providers results v d = filter (\<lambda>e. fst e = v \<and> fst (snd e) = d) (entries results)"

definition collides :: "file_result option list \<Rightarrow> string \<Rightarrow> string \<Rightarrow> bool" where
  "collides results v d = (1 < length (providers results v d))"

text \<open>\<^verbatim>\<open>catalog["variables"][v].get(d)\<close>, and \<open>None\<close> too when \<open>v\<close> has no mapping.\<close>

definition lookup :: "'a catalog \<Rightarrow> string \<Rightarrow> string \<Rightarrow> day_stats option" where
  "lookup c v d = (case variables c v of None \<Rightarrow> None | Some m \<Rightarrow> m d)"

text \<open>One item with its variable goes into the daily summary (lines 119 to 132).\<close>

definition sstep ::
  "(string \<rightharpoonup> string set day_summary) \<Rightarrow> entry \<Rightarrow> (string \<rightharpoonup> string set day_summary)" where
  "sstep ds e = update_summary (fst e) ds (snd e)"

text \<open>Every set of affected variables lies within a given set of names.\<close>

definition affected_within ::
  "string set \<Rightarrow> (string \<rightharpoonup> string set day_summary) \<Rightarrow> bool" where
  "affected_within V ds = (\<forall>d s. ds d = Some s \<longrightarrow> variables_affected s \<subseteq> V)"

subsection \<open>The daily summary the specification asks for\<close>

text \<open>
  Written after the specification's sentence, to be compared with what the loop
  computes: the entries of the catalog for one date, over all variables; the sum of
  their counts, the set of their variables and the greatest of their percentages.
\<close>

definition day_entries :: "'a catalog \<Rightarrow> string \<Rightarrow> (string \<times> day_stats) set" where
  "day_entries c d = {(v, st). lookup c v d = Some st}"

definition spec_total_missing :: "'a catalog \<Rightarrow> string \<Rightarrow> int" where
  "spec_total_missing c d = (\<Sum>e \<in> day_entries c d. missing_count (snd e))"

definition spec_variables_affected :: "'a catalog \<Rightarrow> string \<Rightarrow> string set" where
  "spec_variables_affected c d = fst ` day_entries c d"

definition spec_max_percentage :: "'a catalog \<Rightarrow> string \<Rightarrow> rat" where
  "spec_max_percentage c d = Max ((\<lambda>e. missing_percentage (snd e)) ` day_entries c d)"

text \<open>
  The daily summary agrees with the entries: a date has a summary exactly when it has
  an entry, and then the summary holds the three quantities above.
\<close>

definition summary_invariant :: "string set catalog \<Rightarrow> bool" where
  "summary_invariant c =
     (\<forall>d. finite (day_entries c d) \<and>
          (case daily_summary c d of
             None \<Rightarrow> day_entries c d = {}
           | Some s \<Rightarrow>
               day_entries c d \<noteq> {} \<and>
               total_missing s = spec_total_missing c d \<and>
               variables_affected s = spec_variables_affected c d \<and>
               max_percentage s = spec_max_percentage c d))"

text \<open>The part of it that concerns the affected variables.\<close>

definition affected_invariant :: "string set catalog \<Rightarrow> bool" where
  "affected_invariant c =
     (\<forall>d. case daily_summary c d of
            None \<Rightarrow> day_entries c d = {}
          | Some s \<Rightarrow> day_entries c d \<noteq> {} \<and>
                      variables_affected s = spec_variables_affected c d)"

section \<open>Sample inputs\<close>

subsection \<open>Datasets\<close>

text \<open>A file with both attributes: one point holds the secondary marker, one the primary.\<close>

definition fv_ds :: dataset where
  "fv_ds = \<lparr>ds_variables =
      [(''time'', \<lparr>var_values = Inr \<lparr>shape = [1], flat = [Num 0]\<rparr>, var_attrs = Map.empty\<rparr>),
       (''air'', \<lparr>var_values = Inr \<lparr>shape = [1, 1, 2], flat = [Num (-1), Num (-999)]\<rparr>,
                 var_attrs = [''missing_value'' \<mapsto> Num (-1), ''_FillValue'' \<mapsto> Num (-999)]\<rparr>)],
     time_dates = Some [''1979-01-01'']\<rparr>"

text \<open>A file whose main variable has two axes.\<close>

definition flat_ds :: dataset where
  "flat_ds = \<lparr>ds_variables =
      [(''lat'', \<lparr>var_values = Inr \<lparr>shape = [2], flat = [Num 10, Num 20]\<rparr>, var_attrs = Map.empty\<rparr>),
       (''hgt'', \<lparr>var_values = Inr \<lparr>shape = [2, 2], flat = [NaN, Num 1, Num 2, NaN]\<rparr>,
                 var_attrs = Map.empty\<rparr>)],
     time_dates = None\<rparr>"

text \<open>
  Three days on a 2 by 2 grid: nothing missing on the first day, one not-a-number on
  the second, all four points at the fill value -999 on the third.
\<close>

definition scenario_ds :: dataset where
  "scenario_ds = \<lparr>ds_variables =
      [(''time'', \<lparr>var_values = Inr \<lparr>shape = [3], flat = [Num 0, Num 24, Num 48]\<rparr>,
                  var_attrs = Map.empty\<rparr>),
       (''air'', \<lparr>var_values = Inr \<lparr>shape = [3, 2, 2],
                    flat = [Num 271, Num 272, Num 273, Num 274,
                            Num 275, NaN, Num 277, Num 278,
                            Num (- 999), Num (- 999), Num (- 999), Num (- 999)]\<rparr>,
                 var_attrs = [''_FillValue'' \<mapsto> Num (- 999)]\<rparr>)],
     time_dates = Some [''1979-01-01'', ''1979-01-02'', ''1979-01-03'']\<rparr>"





subsection \<open>Results and catalogs\<close>

text \<open>
  A catalog in which the folder \<^verbatim>\<open>air\<close> has just been registered, and results of
  files of that folder: two with different dates and one that shares its date with
  the first.
\<close>

definition air_registered :: "string set catalog" where
  "air_registered =
     \<lparr>metadata = \<lparr>created = ''2024-01-01T00:00:00'', base_path = ''/data'',
                   variables_processed = [''air'']\<rparr>,
      variables = [''air'' \<mapsto> Map.empty],
      daily_summary = Map.empty\<rparr>"

definition air_jan1 :: file_result where
  "air_jan1 = \<lparr>variable = ''air'', filename = ''air.a.nc'',
               stats = [(''1979-01-01'',
                         \<lparr>missing_count = 1, total_points = 4, missing_percentage = 25\<rparr>)]\<rparr>"

definition air_jan2 :: file_result where
  "air_jan2 = \<lparr>variable = ''air'', filename = ''air.b.nc'',
               stats = [(''1979-01-02'',
                         \<lparr>missing_count = 2, total_points = 4, missing_percentage = 50\<rparr>)]\<rparr>"

definition air_jan1_again :: file_result where
  "air_jan1_again = \<lparr>variable = ''air'', filename = ''air.c.nc'',
               stats = [(''1979-01-01'',
                         \<lparr>missing_count = 2, total_points = 4, missing_percentage = 50\<rparr>)]\<rparr>"

text \<open>The catalogs that folding these results gives.\<close>

definition air_one_day :: "string set catalog" where
  "air_one_day =
     \<lparr>metadata = \<lparr>created = ''2024-01-01T00:00:00'', base_path = ''/data'',
                   variables_processed = [''air'']\<rparr>,
      variables = [''air'' \<mapsto>
         [''1979-01-01'' \<mapsto>
            \<lparr>missing_count = 1, total_points = 4, missing_percentage = 25\<rparr>]],
      daily_summary =
        [''1979-01-01'' \<mapsto>
           \<lparr>total_missing = 1, variables_affected = {''air''}, max_percentage = 25\<rparr>]\<rparr>"

definition air_two_days :: "string set catalog" where
  "air_two_days =
     \<lparr>metadata = \<lparr>created = ''2024-01-01T00:00:00'', base_path = ''/data'',
                   variables_processed = [''air'']\<rparr>,
      variables = [''air'' \<mapsto>
         [''1979-01-01'' \<mapsto>
            \<lparr>missing_count = 1, total_points = 4, missing_percentage = 25\<rparr>,
          ''1979-01-02'' \<mapsto>
            \<lparr>missing_count = 2, total_points = 4, missing_percentage = 50\<rparr>]],
      daily_summary =
        [''1979-01-01'' \<mapsto>
           \<lparr>total_missing = 1, variables_affected = {''air''}, max_percentage = 25\<rparr>,
         ''1979-01-02'' \<mapsto>
           \<lparr>total_missing = 2, variables_affected = {''air''}, max_percentage = 50\<rparr>]\<rparr>"

definition air_collided :: "string set catalog" where
  "air_collided =
     \<lparr>metadata = \<lparr>created = ''2024-01-01T00:00:00'', base_path = ''/data'',
                   variables_processed = [''air'']\<rparr>,
      variables = [''air'' \<mapsto>
         [''1979-01-01'' \<mapsto>
            \<lparr>missing_count = 2, total_points = 4, missing_percentage = 50\<rparr>]],
      daily_summary =
        [''1979-01-01'' \<mapsto>
           \<lparr>total_missing = 3, variables_affected = {''air''}, max_percentage = 50\<rparr>]\<rparr>"

subsection \<open>File systems and an iteration order\<close>

text \<open>One folder without files and one whose only file cannot be opened.\<close>

definition failing_fs :: filesystem where
  "failing_fs =
     \<lparr>glob_nc = (\<lambda>g. if g = ''air'' then Some []
                      else if g = ''hgt'' then Some [''hgt.1979.nc'']
                      else None),
      xr_open_dataset = (\<lambda>p. Inl OSError)\<rparr>"

text \<open>Two folders with one file each; both files hold the three-day scenario.\<close>

definition two_folder_fs :: filesystem where
  "two_folder_fs =
     \<lparr>glob_nc = (\<lambda>g. if g = ''air'' then Some [''air.1979.nc'']
                      else if g = ''hgt'' then Some [''hgt.1979.nc'']
                      else None),
      xr_open_dataset = (\<lambda>p. Inr scenario_ds)\<rparr>"

text \<open>
  One order in which a set of folder names can be iterated: the reverse of the
  alphabetical one. Python fixes no order for the iteration over a set of strings; it
  follows the hashes of the strings, which differ from one run to the next.
\<close>

definition reverse_iter :: "string set \<Rightarrow> string list" where
  "reverse_iter S = filter (\<lambda>v. v \<in> S) (rev var_folders)"

section \<open>Properties\<close>

subsection \<open>The mask of missing points\<close>

lemma np_missing_iff: "(np_isnan x \<or> np_eq x fv) = (x = NaN \<or> x = fv)"
  by (cases x; cases fv) auto

lemma np_isnan_iff: "np_isnan x = (x = NaN)"
  by (cases x) auto

lemma map2_or_map: "map2 (\<or>) (map p xs) (map q xs) = map (\<lambda>x. p x \<or> q x) xs"
  by (induction xs) simp_all

lemma flat_missing_mask:
  "flat (missing_mask S f) =
     map (\<lambda>x. np_isnan x \<or> (case f of None \<Rightarrow> False | Some fv \<Rightarrow> np_eq x fv)) (flat S)"
  by (cases f) (simp_all add: missing_mask_def nd_map_def nd_or_def map2_or_map)

lemma shape_missing_mask: "shape (missing_mask S f) = shape S"
  by (cases f) (simp_all add: missing_mask_def nd_map_def nd_or_def)

text \<open>
  C5. The mask has the shape of the slice and as many elements, and an element of it
  is true exactly where the value is not-a-number or is the configured fill value
  (third conjunct: as values; fourth: with the comparison \<^verbatim>\<open>==\<close> of the code,
  under which a not-a-number fill value equals nothing). Without a fill value the
  mask flags the not-a-number points and no others.
\<close>

theorem missing_mask_exact:
  "shape (missing_mask S f) = shape S \<and>
   length (flat (missing_mask S f)) = length (flat S) \<and>
   flat (missing_mask S f) = map (\<lambda>x. x = NaN \<or> f = Some x) (flat S) \<and>
   flat (missing_mask S f) =
     map (\<lambda>x. np_isnan x \<or> (\<exists>fv. f = Some fv \<and> np_eq x fv)) (flat S) \<and>
   flat (missing_mask S None) = map (\<lambda>x. x = NaN) (flat S)"
proof -
  have a: "(np_isnan x \<or> (case f of None \<Rightarrow> False | Some fv \<Rightarrow> np_eq x fv)) =
           (x = NaN \<or> f = Some x)" for x
    using np_missing_iff [of x] by (cases f) (auto simp: np_isnan_iff)
  have b: "(np_isnan x \<or> (case f of None \<Rightarrow> False | Some fv \<Rightarrow> np_eq x fv)) =
           (np_isnan x \<or> (\<exists>fv. f = Some fv \<and> np_eq x fv))" for x
    by (cases f) auto
  have "flat (missing_mask S f) = map (\<lambda>x. x = NaN \<or> f = Some x) (flat S)"
    by (simp add: flat_missing_mask a)
  moreover have "flat (missing_mask S f) =
      map (\<lambda>x. np_isnan x \<or> (\<exists>fv. f = Some fv \<and> np_eq x fv)) (flat S)"
    by (simp add: flat_missing_mask b)
  moreover have "flat (missing_mask S None) = map (\<lambda>x. x = NaN) (flat S)"
    by (simp add: flat_missing_mask np_isnan_iff)
  ultimately show ?thesis
    by (simp add: shape_missing_mask)
qed

subsection \<open>The analysis of one file\<close>

lemma analyze_body_opened:
  assumes "open_dataset p = Inr ds" "main_vars ds = mv # rest"
    "map_of (ds_variables ds) mv = Some v" "var_values v = Inr data"
  shows "analyze_body open_dataset p =
     (case (if length (shape data) = 3
            then daily_loop data (fill_value_of (var_attrs v)) (time_dates ds)
                   [0..<hd (shape data)] []
            else Inr []) of
        Inl e \<Rightarrow> Inl e
      | Inr daily_stats \<Rightarrow>
          Inr (Some \<lparr>variable = parent_name p, filename = file_name p,
                     stats = daily_stats\<rparr>))"
  using assms by (simp add: analyze_body_def)

text \<open>
  C8. For a file that opens and whose main variable is a three-axis array, the
  statistics are those of the time loop run with the fill value taken from the main
  variable's attributes: \<^verbatim>\<open>_FillValue\<close> when it is there, else
  \<^verbatim>\<open>missing_value\<close> when it is there, else none.
\<close>

theorem fill_value_precedence:
  assumes "open_dataset p = Inr ds"
    and "main_vars ds = mv # rest"
    and "map_of (ds_variables ds) mv = Some v"
    and "var_values v = Inr data"
    and "length (shape data) = 3"
  shows "analyze_body open_dataset p =
           (case daily_loop data (fill_value_of (var_attrs v)) (time_dates ds)
                   [0..<hd (shape data)] [] of
              Inl e \<Rightarrow> Inl e
            | Inr daily_stats \<Rightarrow>
                Inr (Some \<lparr>variable = parent_name p, filename = file_name p,
                           stats = daily_stats\<rparr>)) \<and>
         fill_value_of (var_attrs v) =
           (case var_attrs v ''_FillValue'' of
              Some x \<Rightarrow> Some x
            | None \<Rightarrow>
                (case var_attrs v ''missing_value'' of
                   Some y \<Rightarrow> Some y
                 | None \<Rightarrow> None))"
proof -
  have "fill_value_of a =
      (case a ''_FillValue'' of Some x \<Rightarrow> Some x
       | None \<Rightarrow> (case a ''missing_value'' of Some y \<Rightarrow> Some y | None \<Rightarrow> None))" for a
    by (auto simp: fill_value_of_def dom_def split: option.splits)
  then show ?thesis
    using assms by (simp add: analyze_body_opened)
qed

theorem fill_value_precedence_witness:
  "analyze_body (\<lambda>_. Inr fv_ds) \<lparr>parent_name = ''air'', file_name = ''a.nc''\<rparr> =
     Inr (Some \<lparr>variable = ''air'', filename = ''a.nc'',
                stats = [(''1979-01-01'',
                  \<lparr>missing_count = 1, total_points = 2, missing_percentage = 50\<rparr>)]\<rparr>) \<and>
   fill_value_of [''missing_value'' \<mapsto> Num (- 1), ''_FillValue'' \<mapsto> Num (- 999)] =
     Some (Num (- 999))"
proof -
  let ?a = "[''missing_value'' \<mapsto> Num (- 1), ''_FillValue'' \<mapsto> Num (- 999)]"
  let ?d = "\<lparr>shape = [1, 1, 2], flat = [Num (- 1), Num (- 999)]\<rparr>"
  let ?v = "\<lparr>var_values = Inr ?d, var_attrs = ?a\<rparr>"
  let ?p = "\<lparr>parent_name = ''air'', file_name = ''a.nc''\<rparr>"
  have o: "(\<lambda>_. Inr fv_ds) ?p = Inr fv_ds"
    by simp
  have mv: "main_vars fv_ds = ''air'' # []"
    by code_simp
  have lk: "map_of (ds_variables fv_ds) ''air'' = Some ?v"
    by (simp add: fv_ds_def)
  have vv: "var_values ?v = Inr ?d"
    by simp
  have l3: "length (shape ?d) = 3"
    by simp
  note w = fill_value_precedence [OF o mv lk vv l3]
  have r1: "(case daily_loop ?d (fill_value_of (var_attrs ?v)) (time_dates fv_ds)
                   [0..<hd (shape ?d)] [] of
              Inl e \<Rightarrow> Inl e
            | Inr daily_stats \<Rightarrow>
                Inr (Some \<lparr>variable = parent_name ?p, filename = file_name ?p,
                           stats = daily_stats\<rparr>)) =
       Inr (Some \<lparr>variable = ''air'', filename = ''a.nc'',
                stats = [(''1979-01-01'',
                  \<lparr>missing_count = 1, total_points = 2, missing_percentage = 50\<rparr>)]\<rparr>)"
    by code_simp
  have r2: "(case var_attrs ?v ''_FillValue'' of
              Some x \<Rightarrow> Some x
            | None \<Rightarrow>
                (case var_attrs ?v ''missing_value'' of
                   Some y \<Rightarrow> Some y
                 | None \<Rightarrow> None)) = Some (Num (- 999))"
    by simp
  have a: "analyze_body (\<lambda>_. Inr fv_ds) ?p =
       Inr (Some \<lparr>variable = ''air'', filename = ''a.nc'',
                stats = [(''1979-01-01'',
                  \<lparr>missing_count = 1, total_points = 2, missing_percentage = 50\<rparr>)]\<rparr>)"
    by (rule trans [OF conjunct1 [OF w] r1])
  have b: "fill_value_of (var_attrs ?v) = Some (Num (- 999))"
    by (rule trans [OF conjunct2 [OF w] r2])
  show ?thesis
    using a b by simp
qed

text \<open>
  C9. When the file opens and the array of its main variable does not have exactly
  three axes, the result is not \<^verbatim>\<open>None\<close>: it carries the folder name, the file
  name and an empty mapping of dates.
\<close>

theorem unsupported_shape_empty_result:
  assumes "open_dataset p = Inr ds"
    and "main_vars ds = mv # rest"
    and "map_of (ds_variables ds) mv = Some v"
    and "var_values v = Inr data"
    and "length (shape data) \<noteq> 3"
  shows "analyze_netcdf_file open_dataset p =
           Some \<lparr>variable = parent_name p, filename = file_name p, stats = []\<rparr>"
  using assms by (simp add: analyze_netcdf_file_def analyze_body_opened)

theorem unsupported_shape_empty_result_witness:
  "analyze_netcdf_file (\<lambda>_. Inr flat_ds) \<lparr>parent_name = ''hgt'', file_name = ''h.nc''\<rparr> =
     Some \<lparr>variable = ''hgt'', filename = ''h.nc'', stats = []\<rparr>"
proof -
  let ?v = "\<lparr>var_values = Inr \<lparr>shape = [2, 2], flat = [NaN, Num 1, Num 2, NaN]\<rparr>,
             var_attrs = Map.empty\<rparr>"
  have mv: "main_vars flat_ds = [''hgt'']"
    by code_simp
  have lk: "map_of (ds_variables flat_ds) ''hgt'' = Some ?v"
    by (simp add: flat_ds_def)
  show ?thesis
    using unsupported_shape_empty_result [of "\<lambda>_. Inr flat_ds"
        "\<lparr>parent_name = ''hgt'', file_name = ''h.nc''\<rparr>" flat_ds "''hgt''" "[]" ?v
        "\<lparr>shape = [2, 2], flat = [NaN, Num 1, Num 2, NaN]\<rparr>"] mv lk
    by simp
qed

subsection \<open>Rounding to binary64\<close>

lemma pow2_powi: "pow2 e = 2 powi e"
  by (simp add: pow2_def power_int_def inverse_eq_divide power_one_over)

lemma pow2_pos: "0 < pow2 e"
  by (simp add: pow2_powi)

lemma pow2_add: "pow2 (a + b) = pow2 a * pow2 b"
  by (simp add: pow2_powi power_int_add)

lemma pow2_nat: "pow2 (int n) = 2 ^ n"
  by (simp add: pow2_def)

lemma pow2_mono: "a \<le> b \<Longrightarrow> pow2 a \<le> pow2 b"
  by (simp add: pow2_powi power_int_increasing)

lemma round_half_even_near: "\<bar>of_int (round_half_even x) - x\<bar> \<le> 1 / 2"
proof -
  have "of_int \<lfloor>x\<rfloor> \<le> x" "x < of_int \<lfloor>x\<rfloor> + 1"
    by linarith+
  then show ?thesis
    by (auto simp: round_half_even_def Let_def)
qed

lemma round_half_even_int: "round_half_even (of_int n) = n"
  by (simp add: round_half_even_def)

lemma binade_bounds:
  assumes "x \<noteq> 0"
  shows "pow2 (binade x) \<le> \<bar>x\<bar>" and "\<bar>x\<bar> < pow2 (binade x + 1)"
proof -
  obtain a b where q: "quotient_of \<bar>x\<bar> = (a, b)"
    by (cases "quotient_of \<bar>x\<bar>")
  then have b: "0 < b" and x: "\<bar>x\<bar> = of_int a / of_int b"
    using quotient_of_denom_pos [OF q] quotient_of_div [OF q] by simp_all
  have "0 < \<bar>x\<bar>"
    using assms by simp
  then have a: "0 < a"
    using x b by (simp add: zero_less_divide_iff)
  let ?la = "bitlen a" and ?lb = "bitlen b"
  have la: "1 \<le> ?la" and lb: "1 \<le> ?lb"
    using a b bitlen_eq_zero_iff [of a] bitlen_eq_zero_iff [of b] bitlen_nonneg [of a]
      bitlen_nonneg [of b] by linarith+
  have ba: "pow2 (?la - 1) \<le> of_int a" "of_int a < pow2 ?la"
    and bb: "pow2 (?lb - 1) \<le> of_int b" "of_int b < pow2 ?lb"
  proof -
    have "(2::int) ^ nat (?la - 1) \<le> a" "a < 2 ^ nat ?la"
      using bitlen_bounds [OF a] by simp_all
    then have "(of_int (2 ^ nat (?la - 1)) :: rat) \<le> of_int a" "(of_int a :: rat) < of_int (2 ^ nat ?la)"
      by (simp_all only: of_int_le_iff of_int_less_iff)
    then show "pow2 (?la - 1) \<le> of_int a" "of_int a < pow2 ?la"
      using la by (simp_all add: pow2_def)
    have "(2::int) ^ nat (?lb - 1) \<le> b" "b < 2 ^ nat ?lb"
      using bitlen_bounds [OF b] by simp_all
    then have "(of_int (2 ^ nat (?lb - 1)) :: rat) \<le> of_int b" "(of_int b :: rat) < of_int (2 ^ nat ?lb)"
      by (simp_all only: of_int_le_iff of_int_less_iff)
    then show "pow2 (?lb - 1) \<le> of_int b" "of_int b < pow2 ?lb"
      using lb by (simp_all add: pow2_def)
  qed
  let ?e = "?la - ?lb"
  have lower: "pow2 (?e - 1) \<le> \<bar>x\<bar>"
  proof -
    have "pow2 (?e - 1) * pow2 ?lb = pow2 (?la - 1)"
      by (simp add: pow2_add [symmetric])
    also have "\<dots> \<le> of_int a"
      by (rule ba(1))
    finally have "pow2 (?e - 1) * of_int b \<le> of_int a"
      using bb(2) pow2_pos [of "?e - 1"]
      by (meson less_eq_rat_def mult_left_mono order_trans)
    then show ?thesis
      using b x by (simp add: pos_le_divide_eq)
  qed
  have upper: "\<bar>x\<bar> < pow2 (?e + 1)"
  proof -
    have "of_int a < pow2 ?la"
      by (rule ba(2))
    also have "\<dots> = pow2 (?e + 1) * pow2 (?lb - 1)"
      by (simp add: pow2_add [symmetric])
    also have "\<dots> \<le> pow2 (?e + 1) * of_int b"
      using bb(1) pow2_pos [of "?e + 1"] by (simp add: mult_left_mono)
    finally show ?thesis
      using b x by (simp add: pos_divide_less_eq)
  qed
  have bin: "binade x = (if pow2 ?e \<le> \<bar>x\<bar> then ?e else ?e - 1)"
    using q by (simp add: binade_def)
  show "pow2 (binade x) \<le> \<bar>x\<bar>"
    using bin lower by auto
  show "\<bar>x\<bar> < pow2 (binade x + 1)"
    using bin upper by (auto simp: not_le)
qed

lemma fl_error: "\<bar>fl x - x\<bar> \<le> \<bar>x\<bar> / 2 ^ 53"
proof (cases "x = 0")
  case True
  then show ?thesis by (simp add: fl_def)
next
  case False
  let ?ulp = "pow2 (binade x - 52)"
  have u: "0 < ?ulp"
    by (rule pow2_pos)
  have "?ulp * 2 ^ 52 = pow2 (binade x)"
    using pow2_add [of "binade x - 52" 52] pow2_nat [of 52] by simp
  then have ul: "?ulp * 2 ^ 52 \<le> \<bar>x\<bar>"
    using binade_bounds(1) [OF False] by simp
  have "fl x - x = (of_int (round_half_even (x / ?ulp)) - x / ?ulp) * ?ulp"
    using False u by (simp add: fl_def Let_def field_simps)
  then have "\<bar>fl x - x\<bar> = \<bar>of_int (round_half_even (x / ?ulp)) - x / ?ulp\<bar> * ?ulp"
    using u by (simp add: abs_mult)
  also have "\<dots> \<le> 1 / 2 * ?ulp"
    using round_half_even_near [of "x / ?ulp"] u by (simp add: mult_right_mono)
  also have "\<dots> \<le> \<bar>x\<bar> / 2 ^ 53"
    using ul by (simp add: field_simps)
  finally show ?thesis .
qed

lemma fl_int:
  assumes "\<bar>n\<bar> < 2 ^ 53"
  shows "fl (of_int n) = of_int n"
proof (cases "n = 0")
  case True
  then show ?thesis by (simp add: fl_def)
next
  case False
  let ?x = "of_int n :: rat"
  let ?e = "binade ?x"
  have nz: "?x \<noteq> 0"
    using False by simp
  have "pow2 ?e \<le> \<bar>?x\<bar>"
    by (rule binade_bounds(1) [OF nz])
  also have "\<bar>?x\<bar> < 2 ^ 53"
  proof -
    have "(of_int \<bar>n\<bar> :: rat) < of_int (2 ^ 53)"
      using assms by (simp only: of_int_less_iff)
    then show ?thesis by simp
  qed
  finally have "pow2 ?e < pow2 53"
    by (simp add: pow2_def)
  then have e: "?e \<le> 52"
    using pow2_mono [of 53 ?e] by (cases "?e \<le> 52") auto
  define m where "m = nat (52 - ?e)"
  have ulp: "pow2 (?e - 52) = 1 / 2 ^ m"
  proof -
    have "pow2 (?e - 52) * pow2 (int m) = pow2 0"
      using e by (simp add: pow2_add [symmetric] m_def)
    then show ?thesis
      by (simp add: pow2_nat pow2_def field_simps)
  qed
  have "?x / pow2 (?e - 52) = of_int (n * 2 ^ m)"
    by (simp add: ulp)
  then have "round_half_even (?x / pow2 (?e - 52)) = n * 2 ^ m"
    by (simp only: round_half_even_int)
  then show ?thesis
    using nz by (simp add: fl_def Let_def ulp)
qed

lemma two_step_error:
  fixes P Q R A B :: rat
  assumes "\<bar>P - Q * 100\<bar> \<le> A" and "\<bar>Q - R\<bar> \<le> B"
  shows "\<bar>P * 100 - 10000 * R\<bar> \<le> 100 * A + 10000 * B"
  using assms by linarith

lemma percentage_product_near:
  assumes mc: "0 < mc" and le: "mc \<le> tp" and tp: "tp < 2 ^ 53"
  shows "\<bar>float_mul (float_div (float_of_int mc) (float_of_int tp)) 100 * 100 -
          10000 * of_int mc / of_int tp\<bar> \<le> 20001 / 2 ^ 53"
proof -
  let ?u = "1 / 2 ^ 53 :: rat"
  let ?r = "of_int mc / of_int tp :: rat"
  have tpos: "0 < tp"
    using mc le by simp
  have a: "float_of_int mc = of_int mc"
    unfolding float_of_int_def using mc le tp by (intro fl_int) simp
  have b: "float_of_int tp = of_int tp"
    unfolding float_of_int_def using tpos tp by (intro fl_int) simp
  have r0: "0 < ?r"
    using mc tpos by simp
  have r1: "?r \<le> 1"
    using le tpos by simp
  let ?q = "fl ?r"
  have q: "\<bar>?q - ?r\<bar> \<le> ?u"
  proof -
    have "\<bar>?q - ?r\<bar> \<le> \<bar>?r\<bar> / 2 ^ 53"
      by (rule fl_error)
    also have "\<dots> \<le> 1 / 2 ^ 53"
      using r0 r1 by (simp add: divide_right_mono)
    finally show ?thesis .
  qed
  have qa: "\<bar>?q\<bar> \<le> 1 + ?u"
    using q r0 r1 by linarith
  let ?p = "fl (?q * 100)"
  have p: "\<bar>?p - ?q * 100\<bar> \<le> 100 * (1 + ?u) * ?u"
  proof -
    have "\<bar>?p - ?q * 100\<bar> \<le> \<bar>?q * 100\<bar> / 2 ^ 53"
      by (rule fl_error)
    also have "\<dots> = \<bar>?q\<bar> * (100 * ?u)"
      by (simp add: abs_mult)
    also have "\<dots> \<le> (1 + ?u) * (100 * ?u)"
      using qa by (intro mult_right_mono) simp_all
    finally show ?thesis
      by (simp add: mult.assoc mult.left_commute)
  qed
  have "\<bar>?p * 100 - 10000 * ?r\<bar> \<le> 100 * (100 * (1 + ?u) * ?u) + 10000 * ?u"
    by (rule two_step_error [OF p q])
  also have "\<dots> \<le> 20001 / 2 ^ 53"
    by simp
  finally have "\<bar>?p * 100 - 10000 * ?r\<bar> \<le> 20001 / 2 ^ 53" .
  then show ?thesis
    by (simp add: float_mul_def float_div_def a b)
qed

lemma percentage_hundredths_near:
  assumes mc: "0 < mc" and le: "mc \<le> tp" and tp: "tp < 2 ^ 53"
  defines "k \<equiv> round_half_even
     (float_mul (float_div (float_of_int mc) (float_of_int tp)) 100 * 100)"
  shows "\<bar>of_int k - 10000 * of_int mc / of_int tp\<bar> \<le> (1 / 2 + 20001 / 2 ^ 53 :: rat)"
    and "tp \<le> 10 ^ 11 \<Longrightarrow> \<bar>of_int k - 10000 * of_int mc / of_int tp\<bar> \<le> (1 / 2 :: rat)"
proof -
  let ?y = "float_mul (float_div (float_of_int mc) (float_of_int tp)) 100 * 100"
  let ?z = "10000 * of_int mc / of_int tp :: rat"
  let ?d = "20001 / 2 ^ 53 :: rat"
  have tpos: "0 < tp"
    using mc le by simp
  have y: "\<bar>?y - ?z\<bar> \<le> ?d"
    by (rule percentage_product_near [OF mc le tp])
  have ky: "\<bar>of_int k - ?y\<bar> \<le> 1 / 2"
    unfolding k_def by (rule round_half_even_near)
  show near: "\<bar>of_int k - ?z\<bar> \<le> 1 / 2 + ?d"
    using y ky by linarith
  show "\<bar>of_int k - ?z\<bar> \<le> (1 / 2 :: rat)" if small: "tp \<le> 10 ^ 11"
  proof (rule ccontr)
    assume "\<not> \<bar>of_int k - ?z\<bar> \<le> (1 / 2 :: rat)"
    then consider "of_int k - ?z > (1 / 2 :: rat)" | "?z - of_int k > (1 / 2 :: rat)"
      by linarith
    then show False
    proof cases
      case 1
      define N where "N = (2 * k - 1) * tp - 20000 * mc"
      have eq: "(of_int N :: rat) = 2 * of_int tp * (of_int k - 1 / 2 - ?z)"
        using tpos by (simp add: N_def field_simps)
      have "0 < (of_int N :: rat)"
        unfolding eq using 1 tpos by (simp add: zero_less_mult_iff)
      then have "1 \<le> N"
        by simp
      then have "(1 :: rat) \<le> of_int N"
        by simp
      also have "\<dots> \<le> 2 * of_int tp * ?d"
      proof -
        have "of_int k - 1 / 2 - ?z \<le> ?d"
          using near by linarith
        then show ?thesis
          unfolding eq using tpos by (intro mult_left_mono) simp_all
      qed
      also have "\<dots> \<le> 2 * 10 ^ 11 * ?d"
      proof -
        have "(of_int tp :: rat) \<le> of_int (10 ^ 11)"
          using small by (simp only: of_int_le_iff)
        then show ?thesis
          by simp
      qed
      also have "\<dots> < 1"
        by simp
      finally show False
        by simp
    next
      case 2
      define N where "N = 20000 * mc - (2 * k + 1) * tp"
      have eq: "(of_int N :: rat) = 2 * of_int tp * (?z - of_int k - 1 / 2)"
        using tpos by (simp add: N_def field_simps)
      have "0 < (of_int N :: rat)"
        unfolding eq using 2 tpos by (simp add: zero_less_mult_iff)
      then have "1 \<le> N"
        by simp
      then have "(1 :: rat) \<le> of_int N"
        by simp
      also have "\<dots> \<le> 2 * of_int tp * ?d"
      proof -
        have "?z - of_int k - 1 / 2 \<le> ?d"
          using near by linarith
        then show ?thesis
          unfolding eq using tpos by (intro mult_left_mono) simp_all
      qed
      also have "\<dots> \<le> 2 * 10 ^ 11 * ?d"
      proof -
        have "(of_int tp :: rat) \<le> of_int (10 ^ 11)"
          using small by (simp only: of_int_le_iff)
        then show ?thesis
          by simp
      qed
      also have "\<dots> < 1"
        by simp
      finally show False
        by simp
    qed
  qed
qed

subsection \<open>The time loop\<close>

lemma slice_missing_le: "slice_missing data fv t \<le> int (nd_size (nd_index data t))"
proof -
  have "length (filter (\<lambda>b. b) (flat (missing_mask (nd_index data t) fv)))
          \<le> length (flat (nd_index data t))"
    by (simp add: flat_missing_mask del: length_filter_map) (metis length_filter_le length_map)
  also have "\<dots> \<le> nd_size (nd_index data t)"
    by (simp add: nd_index_def nd_size_def Let_def)
  finally show ?thesis
    by (simp add: slice_missing_def count_nonzero_def)
qed

lemma daily_loop_map_of:
  "daily_loop data fv dates idxs acc = Inr out \<Longrightarrow>
   map_of out d =
     (case filter (\<lambda>t. date_at dates t = Some d \<and> 0 < slice_missing data fv t) idxs of
        [] \<Rightarrow> map_of acc d
      | l \<Rightarrow> Some (slice_stats data fv (last l)))"
proof (induction idxs arbitrary: acc)
  case Nil
  then show ?case by simp
next
  case (Cons t idxs)
  let ?P = "\<lambda>t. date_at dates t = Some d \<and> 0 < slice_missing data fv t"
  show ?case
  proof (cases "0 < slice_missing data fv t")
    case False
    with Cons.prems have "daily_loop data fv dates idxs acc = Inr out"
      by (simp add: slice_missing_def Let_def)
    from Cons.IH [OF this] False show ?thesis
      by simp
  next
    case True
    with Cons.prems obtain ts where ts: "dates = Some ts" "t < length ts"
      and run: "daily_loop data fv dates idxs
                  (AList.update (ts ! t) (slice_stats data fv t) acc) = Inr out"
      by (auto simp: slice_missing_def slice_stats_def Let_def split: option.splits if_splits)
    have dt: "date_at dates t = Some (ts ! t)"
      using ts by (simp add: date_at_def)
    show ?thesis
      using Cons.IH [OF run] True dt
      by (auto simp: update_conv' split: list.splits)
  qed
qed

lemma daily_loop_distinct:
  "daily_loop data fv dates idxs acc = Inr out \<Longrightarrow> distinct (map fst acc) \<Longrightarrow>
   distinct (map fst out)"
proof (induction idxs arbitrary: acc)
  case Nil
  then show ?case by simp
next
  case (Cons t idxs)
  then show ?case
    by (auto simp: Let_def distinct_update split: option.splits if_splits)
qed

lemma slice_stats_props:
  assumes "0 < slice_missing data fv t"
  shows "0 < missing_count (slice_stats data fv t)"
    and "missing_count (slice_stats data fv t) \<le> total_points (slice_stats data fv t)"
    and "missing_percentage (slice_stats data fv t) =
           py_round2 (float_mul (float_div
             (float_of_int (missing_count (slice_stats data fv t)))
             (float_of_int (total_points (slice_stats data fv t)))) 100)"
  using assms slice_missing_le [of data fv t] by (simp_all add: slice_stats_def Let_def)

lemma analyze_stats_map_of:
  assumes "open_dataset p = Inr ds" "main_vars ds = mv # rest"
    "map_of (ds_variables ds) mv = Some v" "var_values v = Inr data"
    "analyze_netcdf_file open_dataset p = Some r"
  shows "map_of (stats r) d =
     (if length (shape data) = 3 then
        (case filter (\<lambda>t. date_at (time_dates ds) t = Some d \<and>
                           0 < slice_missing data (fill_value_of (var_attrs v)) t)
                [0..<hd (shape data)] of
           [] \<Rightarrow> None
         | l \<Rightarrow> Some (slice_stats data (fill_value_of (var_attrs v)) (last l)))
      else None)"
    and "distinct (map fst (stats r))"
proof -
  show "map_of (stats r) d =
     (if length (shape data) = 3 then
        (case filter (\<lambda>t. date_at (time_dates ds) t = Some d \<and>
                           0 < slice_missing data (fill_value_of (var_attrs v)) t)
                [0..<hd (shape data)] of
           [] \<Rightarrow> None
         | l \<Rightarrow> Some (slice_stats data (fill_value_of (var_attrs v)) (last l)))
      else None)"
  proof (cases "length (shape data) = 3")
    case False
    with assms show ?thesis
      by (auto simp: analyze_netcdf_file_def analyze_body_opened)
  next
    case True
    with assms obtain out where
      run: "daily_loop data (fill_value_of (var_attrs v)) (time_dates ds)
              [0..<hd (shape data)] [] = Inr out" and r: "stats r = out"
      by (auto simp: analyze_netcdf_file_def analyze_body_opened split: sum.splits)
    from daily_loop_map_of [OF run, of d] True r show ?thesis
      by (simp split: list.splits)
  qed
  show "distinct (map fst (stats r))"
  proof (cases "length (shape data) = 3")
    case False
    with assms show ?thesis
      by (auto simp: analyze_netcdf_file_def analyze_body_opened)
  next
    case True
    with assms obtain out where
      run: "daily_loop data (fill_value_of (var_attrs v)) (time_dates ds)
              [0..<hd (shape data)] [] = Inr out" and r: "stats r = out"
      by (auto simp: analyze_netcdf_file_def analyze_body_opened split: sum.splits)
    from daily_loop_distinct [OF run] r show ?thesis
      by simp
  qed
qed

lemma percentage_rounded:
  assumes mc: "0 < mc" and le: "mc \<le> tp"
  shows "\<exists>k::int.
           py_round2 (float_mul (float_div (float_of_int mc) (float_of_int tp)) 100) =
             fl (of_int k / 100) \<and>
           (tp < 2 ^ 53 \<longrightarrow>
              \<bar>of_int k / 100 - of_int mc / of_int tp * 100\<bar> \<le> (1 / 200 + 1 / 10 ^ 13 :: rat)) \<and>
           (tp \<le> 10 ^ 11 \<longrightarrow>
              \<bar>of_int k / 100 - of_int mc / of_int tp * 100\<bar> \<le> (1 / 200 :: rat))"
proof -
  define k where "k = round_half_even
     (float_mul (float_div (float_of_int mc) (float_of_int tp)) 100 * 100)"
  let ?z = "of_int mc / of_int tp * 100 :: rat"
  have scale: "\<bar>of_int k / 100 - ?z\<bar> = \<bar>of_int k - 10000 * of_int mc / of_int tp\<bar> / 100"
  proof -
    have "of_int k / 100 - ?z = (of_int k - 10000 * of_int mc / of_int tp) / 100"
      by (simp add: field_simps)
    then show ?thesis
      by (simp only: abs_divide abs_numeral)
  qed
  have 1: "py_round2 (float_mul (float_div (float_of_int mc) (float_of_int tp)) 100) =
             fl (of_int k / 100)"
    by (simp add: py_round2_def k_def)
  have 2: "\<bar>of_int k / 100 - ?z\<bar> \<le> (1 / 200 + 1 / 10 ^ 13 :: rat)" if "tp < 2 ^ 53"
  proof -
    have "\<bar>of_int k - 10000 * of_int mc / of_int tp\<bar> \<le> (1 / 2 + 20001 / 2 ^ 53 :: rat)"
      unfolding k_def by (rule percentage_hundredths_near(1) [OF mc le that])
    then have "\<bar>of_int k / 100 - ?z\<bar> \<le> (1 / 2 + 20001 / 2 ^ 53) / 100"
      unfolding scale by (simp add: divide_right_mono)
    also have "\<dots> \<le> 1 / 200 + 1 / 10 ^ 13"
      by simp
    finally show ?thesis .
  qed
  have 3: "\<bar>of_int k / 100 - ?z\<bar> \<le> (1 / 200 :: rat)" if "tp \<le> 10 ^ 11"
  proof -
    have "tp < 2 ^ 53"
      using that by simp
    then have "\<bar>of_int k - 10000 * of_int mc / of_int tp\<bar> \<le> (1 / 2 :: rat)"
      unfolding k_def using that by (intro percentage_hundredths_near(2) [OF mc le])
    then have "\<bar>of_int k / 100 - ?z\<bar> \<le> (1 / 2) / 100"
      unfolding scale by (simp add: divide_right_mono)
    then show ?thesis
      by simp
  qed
  show ?thesis
    using 1 2 3 by blast
qed

lemma percentage_tie_examples:
  "py_round2 (float_mul (float_div (float_of_int 23) (float_of_int 160)) 100) = fl (1437 / 100)"
  "py_round2 (float_mul (float_div (float_of_int 49) (float_of_int 160)) 100) = fl (3063 / 100)"
  "py_round2 (float_mul (float_div (float_of_int 1) (float_of_int 8)) 100) = fl (25 / 2)"
  by code_simp+

text \<open>
  C6. For a file that is analysed (it opens, has a main variable whose values can be
  read, and the analysis returns a result): every entry of the result has a
  positive count of missing points, at most the number of points of the slice, and
  the percentage that line 62 computes from the two in floating-point arithmetic.
  That percentage is the float nearest to a number \<open>k / 100\<close> of two decimal places;
  for a slice of at most \<open>10\<^sup>1\<^sup>1\<close> points \<open>k / 100\<close> is within half a hundredth of
  the exact percentage, so it is the exact percentage rounded to two decimal places
  (either neighbour on a tie); for a slice of fewer than \<open>2\<^sup>5\<^sup>3\<close> points it is within
  half a hundredth and \<open>10\<^sup>-\<^sup>1\<^sup>3\<close>. The entry under a date is that of the last time
  index with that date and at least one missing point; a date all of whose slices are
  complete has no entry. Last conjunct: the three-day scenario.
\<close>

theorem per_day_recording:
  assumes "open_dataset p = Inr ds"
    and "main_vars ds = mv # rest"
    and "map_of (ds_variables ds) mv = Some v"
    and "var_values v = Inr data"
    and "analyze_netcdf_file open_dataset p = Some r"
  shows "(\<forall>(d, st) \<in> set (stats r).
            0 < missing_count st \<and> missing_count st \<le> total_points st \<and>
            missing_percentage st =
              py_round2 (float_mul (float_div (float_of_int (missing_count st))
                                      (float_of_int (total_points st))) 100) \<and>
            (\<exists>k::int.
               missing_percentage st = fl (of_int k / 100) \<and>
               (total_points st < 2 ^ 53 \<longrightarrow>
                  \<bar>of_int k / 100 -
                     of_int (missing_count st) / of_int (total_points st) * 100\<bar>
                    \<le> (1 / 200 + 1 / 10 ^ 13 :: rat)) \<and>
               (total_points st \<le> 10 ^ 11 \<longrightarrow>
                  \<bar>of_int k / 100 -
                     of_int (missing_count st) / of_int (total_points st) * 100\<bar>
                    \<le> (1 / 200 :: rat)))) \<and>
         (\<forall>d. map_of (stats r) d =
            (if length (shape data) = 3 then
               (case filter (\<lambda>t. date_at (time_dates ds) t = Some d \<and>
                                  0 < slice_missing data (fill_value_of (var_attrs v)) t)
                       [0..<hd (shape data)] of
                  [] \<Rightarrow> None
                | l \<Rightarrow> Some (slice_stats data (fill_value_of (var_attrs v)) (last l)))
             else None)) \<and>
         analyze_netcdf_file (\<lambda>_. Inr scenario_ds)
             \<lparr>parent_name = ''air'', file_name = ''air.1979.nc''\<rparr> =
           Some \<lparr>variable = ''air'', filename = ''air.1979.nc'',
                 stats = [(''1979-01-02'',
                           \<lparr>missing_count = 1, total_points = 4, missing_percentage = 25\<rparr>),
                          (''1979-01-03'',
                           \<lparr>missing_count = 4, total_points = 4,
                            missing_percentage = 100\<rparr>)]\<rparr>"
proof -
  let ?fv = "fill_value_of (var_attrs v)"
  note m = analyze_stats_map_of [OF assms]
  have a: "0 < missing_count st \<and> missing_count st \<le> total_points st \<and>
            missing_percentage st =
              py_round2 (float_mul (float_div (float_of_int (missing_count st))
                                      (float_of_int (total_points st))) 100) \<and>
            (\<exists>k::int.
               missing_percentage st = fl (of_int k / 100) \<and>
               (total_points st < 2 ^ 53 \<longrightarrow>
                  \<bar>of_int k / 100 -
                     of_int (missing_count st) / of_int (total_points st) * 100\<bar>
                    \<le> (1 / 200 + 1 / 10 ^ 13 :: rat)) \<and>
               (total_points st \<le> 10 ^ 11 \<longrightarrow>
                  \<bar>of_int k / 100 -
                     of_int (missing_count st) / of_int (total_points st) * 100\<bar>
                    \<le> (1 / 200 :: rat)))"
    if "(d, st) \<in> set (stats r)" for d st
  proof -
    from that m(2) have "map_of (stats r) d = Some st"
      by simp
    with m(1) [of d] obtain l where
      l: "filter (\<lambda>t. date_at (time_dates ds) t = Some d \<and> 0 < slice_missing data ?fv t)
            [0..<hd (shape data)] = l" "l \<noteq> []" "st = slice_stats data ?fv (last l)"
      by (auto split: if_splits list.splits)
    have "last l \<in> set l"
      using l(2) by simp
    then have pos: "0 < slice_missing data ?fv (last l)"
      using l(1) by auto
    have mc: "0 < missing_count st" and le: "missing_count st \<le> total_points st"
      using slice_stats_props(1,2) [OF pos] l(3) by simp_all
    have pc: "missing_percentage st =
              py_round2 (float_mul (float_div (float_of_int (missing_count st))
                                      (float_of_int (total_points st))) 100)"
      using slice_stats_props(3) [OF pos] l(3) by simp
    show ?thesis
      using mc le pc percentage_rounded [OF mc le] by simp
  qed
  have s: "analyze_netcdf_file (\<lambda>_. Inr scenario_ds)
             \<lparr>parent_name = ''air'', file_name = ''air.1979.nc''\<rparr> =
           Some \<lparr>variable = ''air'', filename = ''air.1979.nc'',
                 stats = [(''1979-01-02'',
                           \<lparr>missing_count = 1, total_points = 4, missing_percentage = 25\<rparr>),
                          (''1979-01-03'',
                           \<lparr>missing_count = 4, total_points = 4,
                            missing_percentage = 100\<rparr>)]\<rparr>"
    by code_simp
  show ?thesis
    using a m(1) s by blast
qed

theorem per_day_recording_witness:
  "map_of [(''1979-01-02'',
            \<lparr>missing_count = 1, total_points = 4, missing_percentage = 25\<rparr>),
           (''1979-01-03'',
            \<lparr>missing_count = 4, total_points = 4, missing_percentage = 100\<rparr>)]
      ''1979-01-01'' = None \<and>
   slice_stats \<lparr>shape = [3, 2, 2],
                    flat = [Num 271, Num 272, Num 273, Num 274,
                            Num 275, NaN, Num 277, Num 278,
                            Num (- 999), Num (- 999), Num (- 999), Num (- 999)]\<rparr>
      (Some (Num (- 999))) 1 =
     \<lparr>missing_count = 1, total_points = 4, missing_percentage = 25\<rparr> \<and>
   (\<exists>k::int. (25 :: rat) = fl (of_int k / 100) \<and> \<bar>of_int k / 100 - (25 :: rat)\<bar> \<le> 1 / 200)"
proof -
  let ?d = "\<lparr>shape = [3, 2, 2],
                    flat = [Num 271, Num 272, Num 273, Num 274,
                            Num 275, NaN, Num 277, Num 278,
                            Num (- 999), Num (- 999), Num (- 999), Num (- 999)]\<rparr>"
  let ?v = "\<lparr>var_values = Inr ?d, var_attrs = [''_FillValue'' \<mapsto> Num (- 999)]\<rparr>"
  let ?p = "\<lparr>parent_name = ''air'', file_name = ''air.1979.nc''\<rparr>"
  let ?r = "\<lparr>variable = ''air'', filename = ''air.1979.nc'',
                 stats = [(''1979-01-02'',
                           \<lparr>missing_count = 1, total_points = 4, missing_percentage = 25\<rparr>),
                          (''1979-01-03'',
                           \<lparr>missing_count = 4, total_points = 4,
                            missing_percentage = 100\<rparr>)]\<rparr>"
  have o: "(\<lambda>_. Inr scenario_ds) ?p = Inr scenario_ds"
    by simp
  have mv: "main_vars scenario_ds = ''air'' # []"
    by code_simp
  have lk: "map_of (ds_variables scenario_ds) ''air'' = Some ?v"
    by (simp add: scenario_ds_def)
  have vv: "var_values ?v = Inr ?d"
    by simp
  have res: "analyze_netcdf_file (\<lambda>_. Inr scenario_ds) ?p = Some ?r"
    by code_simp
  note w = per_day_recording [OF o mv lk vv res]
  have day1: "map_of (stats ?r) ''1979-01-01'' =
      (if length (shape ?d) = 3 then
               (case filter (\<lambda>t. date_at (time_dates scenario_ds) t = Some ''1979-01-01'' \<and>
                                  0 < slice_missing ?d (fill_value_of (var_attrs ?v)) t)
                       [0..<hd (shape ?d)] of
                  [] \<Rightarrow> None
                | l \<Rightarrow> Some (slice_stats ?d (fill_value_of (var_attrs ?v)) (last l)))
             else None)"
    by (rule spec [OF conjunct1 [OF conjunct2 [OF w]]])
  have e1: "(if length (shape ?d) = 3 then
               (case filter (\<lambda>t. date_at (time_dates scenario_ds) t = Some ''1979-01-01'' \<and>
                                  0 < slice_missing ?d (fill_value_of (var_attrs ?v)) t)
                       [0..<hd (shape ?d)] of
                  [] \<Rightarrow> None
                | l \<Rightarrow> Some (slice_stats ?d (fill_value_of (var_attrs ?v)) (last l)))
             else None) = None"
    by code_simp
  have a: "map_of (stats ?r) ''1979-01-01'' = None"
    by (rule trans [OF day1 e1])
  have day2: "map_of (stats ?r) ''1979-01-02'' =
      (if length (shape ?d) = 3 then
               (case filter (\<lambda>t. date_at (time_dates scenario_ds) t = Some ''1979-01-02'' \<and>
                                  0 < slice_missing ?d (fill_value_of (var_attrs ?v)) t)
                       [0..<hd (shape ?d)] of
                  [] \<Rightarrow> None
                | l \<Rightarrow> Some (slice_stats ?d (fill_value_of (var_attrs ?v)) (last l)))
             else None)"
    by (rule spec [OF conjunct1 [OF conjunct2 [OF w]]])
  have f2: "filter (\<lambda>t. date_at (time_dates scenario_ds) t = Some ''1979-01-02'' \<and>
                        0 < slice_missing ?d (fill_value_of (var_attrs ?v)) t)
               [0..<hd (shape ?d)] = [1]"
    by code_simp
  have fv: "fill_value_of (var_attrs ?v) = Some (Num (- 999))"
    by code_simp
  have e2: "(if length (shape ?d) = 3 then
               (case filter (\<lambda>t. date_at (time_dates scenario_ds) t = Some ''1979-01-02'' \<and>
                                  0 < slice_missing ?d (fill_value_of (var_attrs ?v)) t)
                       [0..<hd (shape ?d)] of
                  [] \<Rightarrow> None
                | l \<Rightarrow> Some (slice_stats ?d (fill_value_of (var_attrs ?v)) (last l)))
             else None) = Some (slice_stats ?d (Some (Num (- 999))) 1)"
    unfolding f2 unfolding fv by simp
  have "Some (slice_stats ?d (Some (Num (- 999))) 1) = map_of (stats ?r) ''1979-01-02''"
    by (rule sym [OF trans [OF day2 e2]])
  then have b: "slice_stats ?d (Some (Num (- 999))) 1 =
      \<lparr>missing_count = 1, total_points = 4, missing_percentage = 25\<rparr>"
    by simp
  let ?e2 = "\<lparr>missing_count = 1, total_points = 4, missing_percentage = 25\<rparr>"
  have mem: "(''1979-01-02'', ?e2) \<in> set (stats ?r)"
    by simp
  note inst = bspec [OF conjunct1 [OF w] mem, unfolded prod.case]
  have "\<exists>k::int.
               missing_percentage ?e2 = fl (of_int k / 100) \<and>
               (total_points ?e2 < 2 ^ 53 \<longrightarrow>
                  \<bar>of_int k / 100 -
                     of_int (missing_count ?e2) / of_int (total_points ?e2) * 100\<bar>
                    \<le> (1 / 200 + 1 / 10 ^ 13 :: rat)) \<and>
               (total_points ?e2 \<le> 10 ^ 11 \<longrightarrow>
                  \<bar>of_int k / 100 -
                     of_int (missing_count ?e2) / of_int (total_points ?e2) * 100\<bar>
                    \<le> (1 / 200 :: rat))"
    using inst by (elim conjE)
  then obtain k :: int where k1: "missing_percentage ?e2 = fl (of_int k / 100)"
    and k3: "total_points ?e2 \<le> 10 ^ 11 \<longrightarrow>
                  \<bar>of_int k / 100 -
                     of_int (missing_count ?e2) / of_int (total_points ?e2) * 100\<bar>
                    \<le> (1 / 200 :: rat)"
    by (elim exE conjE)
  have small: "total_points ?e2 \<le> 10 ^ 11"
    by simp
  have k: "(25 :: rat) = fl (of_int k / 100)"
    using k1 by simp
  have "\<bar>of_int k / 100 - (25 :: rat)\<bar> \<le> 1 / 200"
    using mp [OF k3 small] by simp
  with k have c: "\<exists>k::int. (25 :: rat) = fl (of_int k / 100) \<and>
      \<bar>of_int k / 100 - (25 :: rat)\<bar> \<le> 1 / 200"
    by blast
  show ?thesis
    using a b c by simp
qed

subsection \<open>The boundary of the analysis\<close>


text \<open>A list of variables either has all its names on a denylist or splits at the first
  name that is not on it.\<close>

lemma variables_cases:
  "fst ` set xs \<subseteq> D \<or>
   (\<exists>pre n v post. xs = pre @ (n, v) # post \<and> fst ` set pre \<subseteq> D \<and> n \<notin> D)"
proof (cases "\<exists>x\<in>set xs. fst x \<notin> D")
  case False
  then show ?thesis
    by auto
next
  case True
  then obtain pre x post where "xs = pre @ x # post" "fst x \<notin> D"
    "\<forall>y\<in>set pre. \<not> fst y \<notin> D"
    using split_list_first_prop [of xs "\<lambda>x. fst x \<notin> D"] by blast
  then have "xs = pre @ (fst x, snd x) # post \<and> fst ` set pre \<subseteq> D \<and> fst x \<notin> D"
    by auto
  then show ?thesis
    by blast
qed





subsection \<open>Folding results into the catalog\<close>

lemma entries_simps [simp]:
  "entries [] = []"
  "entries (r # rs) = result_entries r @ entries rs"
  by (simp_all add: entries_def)

lemma providers_simps:
  "providers [] v d = []"
  "providers (r # rs) v d = providers [r] v d @ providers rs v d"
  by (simp_all add: providers_def)

lemma fold_result_summary:
  "fold_result c result = Inr c' \<Longrightarrow>
   daily_summary c' = foldl sstep (daily_summary c) (result_entries result)"
proof -
  have "foldl sstep ds (map (Pair v) items) =
        foldl (update_summary v) ds items" for v ds items
    by (induction items arbitrary: ds) (simp_all add: sstep_def)
  then show "fold_result c result = Inr c' \<Longrightarrow>
   daily_summary c' = foldl sstep (daily_summary c) (result_entries result)"
    by (auto simp: fold_result_def result_entries_def split: option.splits)
qed

lemma fold_results_summary:
  "fold_results c rs = Inr c' \<Longrightarrow>
   daily_summary c' = foldl sstep (daily_summary c) (entries rs)"
proof (induction rs arbitrary: c)
  case Nil
  then show ?case by simp
next
  case (Cons r rs)
  then obtain c1 where 1: "fold_result c r = Inr c1" and 2: "fold_results c1 rs = Inr c'"
    by (auto split: sum.splits)
  show ?case
    using Cons.IH [OF 2] fold_result_summary [OF 1] by simp
qed

lemma fold_result_frame:
  "fold_result c result = Inr c' \<Longrightarrow>
   metadata c' = metadata c \<and> (variables c' v = None \<longleftrightarrow> variables c v = None)"
  by (auto simp: fold_result_def split: option.splits if_splits)

lemma fold_results_frame:
  "fold_results c rs = Inr c' \<Longrightarrow>
   metadata c' = metadata c \<and> (variables c' v = None \<longleftrightarrow> variables c v = None)"
proof (induction rs arbitrary: c)
  case Nil
  then show ?case by simp
next
  case (Cons r rs)
  then obtain c1 where 1: "fold_result c r = Inr c1" and 2: "fold_results c1 rs = Inr c'"
    by (auto split: sum.splits)
  show ?case
    using Cons.IH [OF 2] fold_result_frame [OF 1] by simp
qed

lemma fold_result_error: "fold_result c result = Inl e \<Longrightarrow> e = KeyError"
  by (auto simp: fold_result_def split: option.splits)

lemma fold_results_outcome:
  "((\<forall>r. Some r \<in> set rs \<longrightarrow> variables c (variable r) \<noteq> None) \<longrightarrow>
      (\<exists>c'. fold_results c rs = Inr c')) \<and>
   (\<not> (\<forall>r. Some r \<in> set rs \<longrightarrow> variables c (variable r) \<noteq> None) \<longrightarrow>
      fold_results c rs = Inl KeyError)"
proof (induction rs arbitrary: c)
  case Nil
  then show ?case by simp
next
  case (Cons r rs)
  show ?case
  proof (cases "fold_result c r")
    case (Inl e)
    then have "e = KeyError"
      by (rule fold_result_error)
    moreover from Inl have "\<exists>r'. r = Some r' \<and> variables c (variable r') = None"
      by (auto simp: fold_result_def split: option.splits)
    ultimately show ?thesis
      using Inl by auto
  next
    case (Inr c1)
    have dom: "(variables c1 v = None) = (variables c v = None)" for v
      using fold_result_frame [OF Inr] by simp
    have here: "variables c (variable r') \<noteq> None" if "r = Some r'" for r'
      using Inr that by (auto simp: fold_result_def split: option.splits)
    have "(\<forall>x. Some x \<in> set (r # rs) \<longrightarrow> variables c (variable x) \<noteq> None) =
          (\<forall>x. Some x \<in> set rs \<longrightarrow> variables c1 (variable x) \<noteq> None)"
      using here by (auto simp: dom)
    moreover have "fold_results c (r # rs) = fold_results c1 rs"
      using Inr by simp
    ultimately show ?thesis
      using Cons.IH [of c1] by simp
  qed
qed

lemma dict_update_char:
  "dict_update m items d =
     (case filter (\<lambda>it. fst it = d) items of [] \<Rightarrow> m d | l \<Rightarrow> Some (snd (last l)))"
proof (induction items rule: rev_induct)
  case Nil
  then show ?case by (simp add: dict_update_def)
next
  case (snoc x xs)
  then show ?case
    by (cases x) (auto simp: dict_update_def split: list.splits)
qed

lemma fold_result_lookup:
  assumes "fold_result c r = Inr c'"
  shows "lookup c' v d =
     (case providers [r] v d of [] \<Rightarrow> lookup c v d | l \<Rightarrow> Some (snd (snd (last l))))"
proof (cases r)
  case None
  with assms show ?thesis
    by (simp add: fold_result_def providers_def result_entries_def)
next
  case (Some res)
  with assms obtain m where m: "variables c (variable res) = Some m"
    and c': "c' = c\<lparr>variables := (variables c)(variable res \<mapsto> dict_update m (stats res)),
                     daily_summary := foldl (update_summary (variable res))
                                        (daily_summary c) (stats res)\<rparr>"
    by (auto simp: fold_result_def split: option.splits)
  show ?thesis
  proof (cases "variable res = v")
    case False
    then have "providers [r] v d = []"
      using Some by (auto simp: providers_def result_entries_def filter_empty_conv)
    then show ?thesis
      using False c' by (simp add: lookup_def)
  next
    case True
    have f: "filter (\<lambda>e. fst e = v \<and> fst (snd e) = d)
               (map (Pair v) items) =
             map (Pair v) (filter (\<lambda>it. fst it = d) items)" for items
      by (induction items) auto
    have "providers [r] v d =
          map (Pair v) (filter (\<lambda>it. fst it = d) (stats res))"
      using Some True by (simp add: providers_def result_entries_def f)
    then show ?thesis
      using True c' m dict_update_char [of m "stats res" d]
      by (auto simp: lookup_def last_map split: list.splits)
  qed
qed

lemma fold_results_lookup:
  "fold_results c rs = Inr c' \<Longrightarrow>
   lookup c' v d =
     (case providers rs v d of [] \<Rightarrow> lookup c v d | l \<Rightarrow> Some (snd (snd (last l))))"
proof (induction rs arbitrary: c)
  case Nil
  then show ?case by (simp add: providers_def)
next
  case (Cons r rs)
  then obtain c1 where 1: "fold_result c r = Inr c1" and 2: "fold_results c1 rs = Inr c'"
    by (auto split: sum.splits)
  show ?case
    using Cons.IH [OF 2] fold_result_lookup [OF 1, of v d] providers_simps(2) [of r rs v d]
    by (auto split: list.splits)
qed

subsection \<open>The order of the results\<close>

lemma sstep_commute: "sstep (sstep ds e1) e2 = sstep (sstep ds e2) e1"
proof (cases "fst (snd e1) = fst (snd e2)")
  case True
  then show ?thesis
    by (auto simp: sstep_def update_summary_def Let_def max.assoc max.commute
        max.left_commute add_ac insert_commute split: option.splits)
next
  case False
  then show ?thesis
    by (auto simp: sstep_def update_summary_def Let_def fun_upd_twist)
qed

lemma foldl_sstep_perm:
  assumes "mset es = mset es'"
  shows "foldl sstep ds es = foldl sstep ds es'"
proof -
  have "fold (\<lambda>e ds. sstep ds e) es = fold (\<lambda>e ds. sstep ds e) es'"
    by (rule fold_multiset_equiv) (auto simp: sstep_commute assms fun_eq_iff)
  then show ?thesis
    by (simp add: foldl_conv_fold)
qed

lemma mset_entries:
  assumes "mset rs = mset rs'"
  shows "mset (entries rs) = mset (entries rs')"
proof -
  have "mset (entries xs) = (\<Sum>r\<in>#mset xs. mset (result_entries r))" for xs
    by (induction xs) simp_all
  then show ?thesis
    using assms by simp
qed

lemma providers_perm:
  assumes "mset rs = mset rs'" "\<not> collides rs v d"
  shows "providers rs v d = providers rs' v d"
proof -
  have m: "mset (providers rs v d) = mset (providers rs' v d)"
    using mset_entries [OF assms(1)] by (simp add: providers_def)
  then have "length (providers rs v d) = length (providers rs' v d)"
    by (rule mset_eq_length)
  moreover have "length (providers rs v d) \<le> 1"
    using assms(2) by (simp add: collides_def)
  ultimately show ?thesis
    using m by (cases "providers rs v d"; cases "providers rs' v d") auto
qed

text \<open>
  C1. Two orders of the same results, folded into the same catalog: either both raise
  \<^verbatim>\<open>KeyError\<close> (a result names a variable that has no mapping), or both give a
  catalog, and the two catalogs have the same metadata, the same daily summary and the
  same variables, and agree on every variable and date for which the results hold at
  most one item. So when no key collides the two catalogs are identical; where a key
  collides the entry is the one of the result folded last (lemma
  \<open>fold_results_lookup\<close>), which a fixed order fixes.
\<close>

theorem fold_order_independence:
  assumes "mset rs = mset rs'"
  shows "((fold_results c rs = Inl KeyError \<and> fold_results c rs' = Inl KeyError) \<or>
          (\<exists>a b. fold_results c rs = Inr a \<and> fold_results c rs' = Inr b \<and>
                 metadata a = metadata b \<and> daily_summary a = daily_summary b \<and>
                 (\<forall>v. variables a v = None \<longleftrightarrow> variables b v = None) \<and>
                 (\<forall>v d. \<not> collides rs v d \<longrightarrow> lookup a v d = lookup b v d))) \<and>
         ((\<forall>v d. \<not> collides rs v d) \<longrightarrow> fold_results c rs = fold_results c rs')"
proof (cases "\<forall>r. Some r \<in> set rs \<longrightarrow> variables c (variable r) \<noteq> None")
  case False
  moreover have "set rs = set rs'"
    using assms by (rule mset_eq_setD)
  ultimately have "fold_results c rs = Inl KeyError" "fold_results c rs' = Inl KeyError"
    using fold_results_outcome [of rs c] fold_results_outcome [of rs' c] by auto
  then show ?thesis
    by simp
next
  case True
  moreover have "set rs = set rs'"
    using assms by (rule mset_eq_setD)
  ultimately obtain a b where a: "fold_results c rs = Inr a" and b: "fold_results c rs' = Inr b"
    using fold_results_outcome [of rs c] fold_results_outcome [of rs' c] by auto
  have md: "metadata a = metadata b"
    using fold_results_frame [OF a] fold_results_frame [OF b] by simp
  have dom: "variables a v = None \<longleftrightarrow> variables b v = None" for v
    using fold_results_frame [OF a, of v] fold_results_frame [OF b, of v] by simp
  have ds: "daily_summary a = daily_summary b"
    using fold_results_summary [OF a] fold_results_summary [OF b]
      foldl_sstep_perm [OF mset_entries [OF assms]] by simp
  have lk: "lookup a v d = lookup b v d" if "\<not> collides rs v d" for v d
    using fold_results_lookup [OF a, of v d] fold_results_lookup [OF b, of v d]
      providers_perm [OF assms that] by simp
  have "a = b" if nc: "\<forall>v d. \<not> collides rs v d"
  proof -
    have "variables a v = variables b v" for v
    proof (cases "variables a v")
      case None
      then show ?thesis
        using dom [of v] by simp
    next
      case (Some m)
      then obtain m' where m': "variables b v = Some m'"
        using dom [of v] by auto
      have "m d = m' d" for d
        using lk [of v d] nc Some m' by (simp add: lookup_def)
      then show ?thesis
        using Some m' by auto
    qed
    then have "variables a = variables b"
      by (rule ext)
    then show ?thesis
      using md ds by simp
  qed
  then show ?thesis
    using a b md ds dom lk by auto
qed

theorem fold_order_independence_witness:
  "fold_results air_registered [Some air_jan1, None, Some air_jan2] =
   fold_results air_registered [Some air_jan2, Some air_jan1, None]"
proof -
  have p: "mset [Some air_jan1, None, Some air_jan2] = mset [Some air_jan2, Some air_jan1, None]"
    by simp
  have n: "\<forall>v d. \<not> collides [Some air_jan1, None, Some air_jan2] v d"
    by (simp add: collides_def providers_def result_entries_def air_jan1_def air_jan2_def)
  show ?thesis
    by (rule mp [OF conjunct2 [OF fold_order_independence [OF p]] n])
qed

subsection \<open>Folding a result again\<close>

lemma dict_update_idem: "dict_update (dict_update m items) items = dict_update m items"
proof
  fix d
  show "dict_update (dict_update m items) items d = dict_update m items d"
    by (simp add: dict_update_char [of _ items d] split: list.splits)
qed

lemma update_summary_other:
  "d \<noteq> fst item \<Longrightarrow> update_summary v ds item d = ds d"
  by (simp add: update_summary_def Let_def)

lemma foldl_update_summary_other:
  "d \<notin> fst ` set items \<Longrightarrow> foldl (update_summary v) ds items d = ds d"
  by (induction items arbitrary: ds) (auto simp: update_summary_other)

lemma foldl_update_summary_distinct:
  assumes "distinct (map fst items)" "(d, st) \<in> set items"
  shows "foldl (update_summary v) ds items d = update_summary v ds (d, st) d"
  using assms
proof (induction items arbitrary: ds)
  case Nil
  then show ?case by simp
next
  case (Cons item items)
  show ?case
  proof (cases "item = (d, st)")
    case True
    then have "d \<notin> fst ` set items"
      using Cons.prems(1) by auto
    then show ?thesis
      using True by (simp add: foldl_update_summary_other)
  next
    case False
    then have in_rest: "(d, st) \<in> set items"
      using Cons.prems(2) by simp
    then have "fst item \<noteq> d"
      using Cons.prems(1) by (auto simp: image_iff)
    then have "update_summary v (update_summary v ds item) (d, st) d =
               update_summary v ds (d, st) d"
      by (simp add: update_summary_def Let_def)
    then show ?thesis
      using Cons.IH [OF _ in_rest] Cons.prems(1) by simp
  qed
qed

text \<open>
  C3, as stated, fails: folding a result with one entry a second time is not without
  effect, since the count of the entry is added to the total of its date again.
\<close>

theorem refold_counterexample:
  "fold_results air_registered [Some air_jan1, Some air_jan1] \<noteq>
   fold_results air_registered [Some air_jan1]"
proof
  assume eq: "fold_results air_registered [Some air_jan1, Some air_jan1] =
              fold_results air_registered [Some air_jan1]"
  have 1: "total_missing (the (daily_summary
             (projr (fold_results air_registered [Some air_jan1])) ''1979-01-01'')) = 1"
    by (simp add: fold_result_def air_registered_def air_jan1_def dict_update_def
        update_summary_def)
  have 2: "total_missing (the (daily_summary
             (projr (fold_results air_registered [Some air_jan1, Some air_jan1]))
             ''1979-01-01'')) = 2"
    by (simp add: fold_result_def air_registered_def air_jan1_def dict_update_def
        update_summary_def)
  from 1 2 eq show False
    by simp
qed

text \<open>
  C3, amended. Folding \<^verbatim>\<open>None\<close> leaves the catalog as it is, and so does folding a
  result without entries whose variable has a mapping. Folding a result a second time
  leaves the metadata, the variables and the summaries of the other dates as they
  are, and, for each date of the result, adds the count of its entry to the total once
  more while the affected variables and the maximum stay.
\<close>

theorem fold_null_noop_refold_adds:
  "fold_result c None = Inr c \<and>
   (variables c (variable r) \<noteq> None \<longrightarrow> stats r = [] \<longrightarrow> fold_result c (Some r) = Inr c) \<and>
   (fold_result c (Some r) = Inr c1 \<longrightarrow> distinct (map fst (stats r)) \<longrightarrow>
      (\<exists>c2. fold_result c1 (Some r) = Inr c2 \<and>
            metadata c2 = metadata c1 \<and> variables c2 = variables c1 \<and>
            (\<forall>d. d \<notin> fst ` set (stats r) \<longrightarrow> daily_summary c2 d = daily_summary c1 d) \<and>
            (\<forall>d st. (d, st) \<in> set (stats r) \<longrightarrow>
               (\<exists>s1. daily_summary c1 d = Some s1 \<and>
                     daily_summary c2 d =
                       Some (s1\<lparr>total_missing := total_missing s1 + missing_count st\<rparr>)))))"
proof -
  have a: "fold_result c None = Inr c"
    by (simp add: fold_result_def)
  have b: "fold_result c (Some r) = Inr c" if "variables c (variable r) \<noteq> None" "stats r = []"
  proof -
    from that(1) obtain m where m: "variables c (variable r) = Some m"
      by auto
    then have "(variables c)(variable r \<mapsto> m) = variables c"
      by (simp add: fun_upd_idem)
    then show ?thesis
      using m that(2) by (simp add: fold_result_def dict_update_def)
  qed
  have c: "\<exists>c2. fold_result c1 (Some r) = Inr c2 \<and>
            metadata c2 = metadata c1 \<and> variables c2 = variables c1 \<and>
            (\<forall>d. d \<notin> fst ` set (stats r) \<longrightarrow> daily_summary c2 d = daily_summary c1 d) \<and>
            (\<forall>d st. (d, st) \<in> set (stats r) \<longrightarrow>
               (\<exists>s1. daily_summary c1 d = Some s1 \<and>
                     daily_summary c2 d =
                       Some (s1\<lparr>total_missing := total_missing s1 + missing_count st\<rparr>)))"
    if f: "fold_result c (Some r) = Inr c1" and dist: "distinct (map fst (stats r))"
  proof -
    let ?v = "variable r"
    from f obtain m where m: "variables c ?v = Some m"
      and c1: "c1 = c\<lparr>variables := (variables c)(?v \<mapsto> dict_update m (stats r)),
                       daily_summary := foldl (update_summary ?v) (daily_summary c) (stats r)\<rparr>"
      by (auto simp: fold_result_def split: option.splits)
    let ?c2 = "c1\<lparr>variables := (variables c1)(?v \<mapsto> dict_update (dict_update m (stats r)) (stats r)),
                   daily_summary := foldl (update_summary ?v) (daily_summary c1) (stats r)\<rparr>"
    have v1: "variables c1 ?v = Some (dict_update m (stats r))"
      using c1 by simp
    then have f2: "fold_result c1 (Some r) = Inr ?c2"
      by (simp add: fold_result_def)
    have vars: "variables ?c2 = variables c1"
      using v1 by (simp add: dict_update_idem fun_upd_idem)
    have other: "daily_summary ?c2 d = daily_summary c1 d" if "d \<notin> fst ` set (stats r)" for d
      using that by (simp add: foldl_update_summary_other)
    have again: "\<exists>s1. daily_summary c1 d = Some s1 \<and>
                     daily_summary ?c2 d =
                       Some (s1\<lparr>total_missing := total_missing s1 + missing_count st\<rparr>)"
      if "(d, st) \<in> set (stats r)" for d st
    proof -
      have "daily_summary c1 d = update_summary ?v (daily_summary c) (d, st) d"
        using c1 foldl_update_summary_distinct [OF dist that] by simp
      moreover have "daily_summary ?c2 d = update_summary ?v (daily_summary c1) (d, st) d"
        using foldl_update_summary_distinct [OF dist that] by simp
      ultimately show ?thesis
        by (auto simp: update_summary_def Let_def split: option.splits)
    qed
    show ?thesis
      using f2 vars other again by (intro exI [of _ ?c2]) simp
  qed
  show ?thesis
    using a b c by blast
qed

theorem fold_null_noop_refold_adds_witness:
  "fold_result air_registered None = Inr air_registered \<and>
   fold_result air_registered
     (Some \<lparr>variable = ''air'', filename = ''air.c.nc'', stats = []\<rparr>) = Inr air_registered \<and>
   daily_summary (projr (fold_result air_one_day (Some air_jan1))) ''1979-01-01'' =
     Some \<lparr>total_missing = 2, variables_affected = {''air''}, max_percentage = 25\<rparr>"
proof -
  let ?r = "\<lparr>variable = ''air'', filename = ''air.c.nc'', stats = []\<rparr>"
  let ?st = "\<lparr>missing_count = 1, total_points = 4, missing_percentage = 25\<rparr>"
  note t = fold_null_noop_refold_adds [of air_registered ?r]
  have reg: "variables air_registered (variable ?r) \<noteq> None"
    by (simp add: air_registered_def)
  have emp: "stats ?r = []"
    by simp
  have 1: "fold_result air_registered None = Inr air_registered"
    by (rule conjunct1 [OF t])
  have 2: "fold_result air_registered (Some ?r) = Inr air_registered"
    by (rule mp [OF mp [OF conjunct1 [OF conjunct2 [OF t]] reg] emp])
  have f1: "fold_result air_registered (Some air_jan1) = Inr air_one_day"
    by (simp add: fold_result_def air_registered_def air_jan1_def air_one_day_def
        dict_update_def update_summary_def)
  have di: "distinct (map fst (stats air_jan1))"
    by (simp add: air_jan1_def)
  from mp [OF mp [OF conjunct2 [OF conjunct2
        [OF fold_null_noop_refold_adds [of air_registered air_jan1 air_one_day]]] f1] di]
  obtain c2 where c2: "fold_result air_one_day (Some air_jan1) = Inr c2"
    and again: "\<forall>d st. (d, st) \<in> set (stats air_jan1) \<longrightarrow>
               (\<exists>s1. daily_summary air_one_day d = Some s1 \<and>
                     daily_summary c2 d =
                       Some (s1\<lparr>total_missing := total_missing s1 + missing_count st\<rparr>))"
    by blast
  have "(''1979-01-01'', ?st) \<in> set (stats air_jan1)"
    by (simp add: air_jan1_def)
  with again obtain s1 where s1: "daily_summary air_one_day ''1979-01-01'' = Some s1"
    and s2: "daily_summary c2 ''1979-01-01'' =
               Some (s1\<lparr>total_missing := total_missing s1 + missing_count ?st\<rparr>)"
    by blast
  have "s1 = \<lparr>total_missing = 1, variables_affected = {''air''}, max_percentage = 25\<rparr>"
    using s1 by (simp add: air_one_day_def)
  then have 3: "daily_summary (projr (fold_result air_one_day (Some air_jan1))) ''1979-01-01'' =
     Some \<lparr>total_missing = 2, variables_affected = {''air''}, max_percentage = 25\<rparr>"
    using s2 c2 by simp
  show ?thesis
    using 1 2 3 by simp
qed

subsection \<open>The invariant of the daily summary\<close>

lemma filter_key_distinct:
  "distinct (map fst items) \<Longrightarrow> (d, st) \<in> set items \<Longrightarrow>
   filter (\<lambda>it. fst it = d) items = [(d, st)]"
proof (induction items)
  case Nil
  then show ?case by simp
next
  case (Cons a items)
  show ?case
  proof (cases "a = (d, st)")
    case True
    then have "d \<notin> fst ` set items"
      using Cons.prems(1) by auto
    then have "filter (\<lambda>it. fst it = d) items = []"
      by (auto simp: filter_empty_conv)
    then show ?thesis
      using True by simp
  next
    case False
    then have "(d, st) \<in> set items"
      using Cons.prems(2) by simp
    moreover from this have "fst a \<noteq> d"
      using Cons.prems(1) by (auto simp: image_iff)
    ultimately show ?thesis
      using Cons.IH Cons.prems(1) by simp
  qed
qed

lemma dict_update_distinct:
  assumes "distinct (map fst items)"
  shows "(d, st) \<in> set items \<Longrightarrow> dict_update m items d = Some st"
    and "d \<notin> fst ` set items \<Longrightarrow> dict_update m items d = m d"
proof -
  show "dict_update m items d = Some st" if "(d, st) \<in> set items"
    using filter_key_distinct [OF assms that] by (simp add: dict_update_char)
  show "dict_update m items d = m d" if "d \<notin> fst ` set items"
  proof -
    have "filter (\<lambda>it. fst it = d) items = []"
      using that by (auto simp: filter_empty_conv)
    then show ?thesis
      by (simp add: dict_update_char)
  qed
qed

lemma summary_invariantD:
  "summary_invariant c \<Longrightarrow>
   finite (day_entries c d) \<and>
   (case daily_summary c d of
      None \<Rightarrow> day_entries c d = {}
    | Some s \<Rightarrow>
        day_entries c d \<noteq> {} \<and>
        total_missing s = spec_total_missing c d \<and>
        variables_affected s = spec_variables_affected c d \<and>
        max_percentage s = spec_max_percentage c d)"
  by (simp add: summary_invariant_def)

lemma invariant_at_insert:
  assumes fin: "finite E"
    and old: "case old of
                None \<Rightarrow> E = {}
              | Some s \<Rightarrow> E \<noteq> {} \<and> total_missing s = (\<Sum>e \<in> E. missing_count (snd e)) \<and>
                  variables_affected s = fst ` E \<and>
                  max_percentage s = Max ((\<lambda>e. missing_percentage (snd e)) ` E)"
    and new: "(v, st) \<notin> E" and pos: "0 \<le> missing_percentage st"
    and s': "update_summary v ds (d, st) d = Some s'" and dsd: "ds d = old"
  shows "total_missing s' = (\<Sum>e \<in> insert (v, st) E. missing_count (snd e)) \<and>
         variables_affected s' = fst ` insert (v, st) E \<and>
         max_percentage s' = Max ((\<lambda>e. missing_percentage (snd e)) ` insert (v, st) E)"
proof (cases old)
  case None
  then have "E = {}"
    using old by simp
  then show ?thesis
    using s' dsd None pos by (auto simp: update_summary_def Let_def)
next
  case (Some s)
  then have E: "E \<noteq> {}" and t: "total_missing s = (\<Sum>e \<in> E. missing_count (snd e))"
    and a: "variables_affected s = fst ` E"
    and m: "max_percentage s = Max ((\<lambda>e. missing_percentage (snd e)) ` E)"
    using old by simp_all
  have "Max ((\<lambda>e. missing_percentage (snd e)) ` insert (v, st) E) =
        max (missing_percentage st) (Max ((\<lambda>e. missing_percentage (snd e)) ` E))"
    using fin E by simp
  moreover have "(\<Sum>e \<in> insert (v, st) E. missing_count (snd e)) =
        missing_count st + (\<Sum>e \<in> E. missing_count (snd e))"
    using fin new by simp
  moreover have "s' = \<lparr>total_missing = total_missing s + missing_count st,
                       variables_affected = insert v (variables_affected s),
                       max_percentage = max (max_percentage s) (missing_percentage st)\<rparr>"
    using s' dsd Some by (simp add: update_summary_def Let_def)
  ultimately show ?thesis
    using t a m by (simp add: max.commute)
qed

lemma fold_result_invariant:
  assumes inv: "summary_invariant c"
    and f: "fold_result c (Some r) = Inr c'"
    and dist: "distinct (map fst (stats r))"
    and fresh: "\<forall>item \<in> set (stats r). lookup c (variable r) (fst item) = None"
    and pos: "\<forall>item \<in> set (stats r). 0 \<le> missing_percentage (snd item)"
  shows "summary_invariant c'"
proof -
  let ?v = "variable r"
  from f obtain m where m: "variables c ?v = Some m"
    and c': "c' = c\<lparr>variables := (variables c)(?v \<mapsto> dict_update m (stats r)),
                     daily_summary := foldl (update_summary ?v) (daily_summary c) (stats r)\<rparr>"
    by (auto simp: fold_result_def split: option.splits)
  have lk_other: "lookup c' v d = lookup c v d" if "v \<noteq> ?v" for v d
    using that c' by (simp add: lookup_def)
  have lk_same: "lookup c' ?v d = dict_update m (stats r) d" for d
    using c' by (simp add: lookup_def)
  have lk_old: "lookup c ?v d = m d" for d
    using m by (simp add: lookup_def)
  have "finite (day_entries c' d) \<and>
          (case daily_summary c' d of
             None \<Rightarrow> day_entries c' d = {}
           | Some s \<Rightarrow>
               day_entries c' d \<noteq> {} \<and>
               total_missing s = spec_total_missing c' d \<and>
               variables_affected s = spec_variables_affected c' d \<and>
               max_percentage s = spec_max_percentage c' d)" for d
  proof (cases "d \<in> fst ` set (stats r)")
    case False
    have "lookup c' v d = lookup c v d" for v
      using lk_other [of v d] lk_same [of d] lk_old [of d] dict_update_distinct(2) [OF dist False]
      by (cases "v = ?v") simp_all
    then have e: "day_entries c' d = day_entries c d"
      by (simp add: day_entries_def)
    have ds_eq: "daily_summary c' d = daily_summary c d"
      using c' False by (simp add: foldl_update_summary_other)
    from inv have "finite (day_entries c d) \<and>
          (case daily_summary c d of
             None \<Rightarrow> day_entries c d = {}
           | Some s \<Rightarrow>
               day_entries c d \<noteq> {} \<and>
               total_missing s = spec_total_missing c d \<and>
               variables_affected s = spec_variables_affected c d \<and>
               max_percentage s = spec_max_percentage c d)"
      by (simp add: summary_invariant_def)
    then show ?thesis
      by (simp add: e ds_eq spec_total_missing_def spec_variables_affected_def
          spec_max_percentage_def split: option.splits)
  next
    case True
    then obtain st where st: "(d, st) \<in> set (stats r)"
      by auto
    have new: "lookup c' ?v d = Some st"
      using lk_same [of d] dict_update_distinct(1) [OF dist st] by simp
    have none: "lookup c ?v d = None"
      using fresh st by force
    have e: "day_entries c' d = insert (?v, st) (day_entries c d)"
    proof -
      have "(lookup c' v d = Some x) = (v = ?v \<and> x = st \<or> lookup c v d = Some x)" for v x
        using lk_other [of v d] new none by (cases "v = ?v") auto
      then show ?thesis
        by (auto simp: day_entries_def)
    qed
    have notin: "(?v, st) \<notin> day_entries c d"
      using none by (simp add: day_entries_def)
    have fin: "finite (day_entries c d)"
      using inv by (simp add: summary_invariant_def)
    have old: "case daily_summary c d of
                None \<Rightarrow> day_entries c d = {}
              | Some s \<Rightarrow> day_entries c d \<noteq> {} \<and>
                  total_missing s = (\<Sum>e \<in> day_entries c d. missing_count (snd e)) \<and>
                  variables_affected s = fst ` day_entries c d \<and>
                  max_percentage s = Max ((\<lambda>e. missing_percentage (snd e)) ` day_entries c d)"
      using summary_invariantD [OF inv, of d]
      by (simp add: spec_total_missing_def spec_variables_affected_def
          spec_max_percentage_def split: option.splits)
    have p: "0 \<le> missing_percentage st"
      using pos st by force
    have upd: "daily_summary c' d = update_summary ?v (daily_summary c) (d, st) d"
      using c' foldl_update_summary_distinct [OF dist st] by simp
    then obtain s' where s': "update_summary ?v (daily_summary c) (d, st) d = Some s'"
      by (simp add: update_summary_def Let_def)
    note i = invariant_at_insert [OF fin old notin p s' refl]
    show ?thesis
      using i upd s' e fin
      by (simp add: spec_total_missing_def spec_variables_affected_def spec_max_percentage_def)
  qed
  then show ?thesis
    by (simp add: summary_invariant_def)
qed

lemma keys_distinct_if_single:
  "(\<And>d. length (filter (\<lambda>it. fst it = d) items) \<le> 1) \<Longrightarrow> distinct (map fst items)"
proof (induction items)
  case Nil
  then show ?case by simp
next
  case (Cons a items)
  have "fst a \<notin> fst ` set items"
  proof
    assume "fst a \<in> fst ` set items"
    then have "filter (\<lambda>it. fst it = fst a) items \<noteq> []"
      by (force simp: filter_empty_conv)
    then have "1 \<le> length (filter (\<lambda>it. fst it = fst a) items)"
      by (cases "filter (\<lambda>it. fst it = fst a) items") simp_all
    with Cons.prems [of "fst a"] show False
      by simp
  qed
  moreover have "length (filter (\<lambda>it. fst it = d) items) \<le> 1" for d
    using Cons.prems [of d] by (simp split: if_splits)
  ultimately show ?case
    using Cons.IH by simp
qed

lemma providers_single:
  "providers [Some r] (variable r) d = map (Pair (variable r)) (filter (\<lambda>it. fst it = d) (stats r))"
proof -
  have "filter (\<lambda>e. fst e = v \<and> fst (snd e) = d) (map (Pair v) items) =
        map (Pair v) (filter (\<lambda>it. fst it = d) items)"
    for items :: "(string \<times> day_stats) list" and v :: string
    by (induction items) auto
  then show ?thesis
    by (simp add: providers_def result_entries_def)
qed

lemma fold_results_invariant:
  assumes "summary_invariant c" and "fold_results c rs = Inr c'"
    and "\<forall>v d. \<not> collides rs v d"
    and "\<forall>e \<in> set (entries rs). lookup c (fst e) (fst (snd e)) = None"
    and "\<forall>e \<in> set (entries rs). 0 \<le> missing_percentage (snd (snd e))"
  shows "summary_invariant c'"
  using assms
proof (induction rs arbitrary: c)
  case Nil
  then show ?case by simp
next
  case (Cons r rs)
  from Cons.prems(2) obtain c1 where 1: "fold_result c r = Inr c1"
    and 2: "fold_results c1 rs = Inr c'"
    by (auto split: sum.splits)
  have len: "length (providers [r] v d) + length (providers rs v d) \<le> 1" for v d
  proof -
    have "\<not> 1 < length (providers (r # rs) v d)"
      using Cons.prems(3) by (simp add: collides_def)
    then show ?thesis
      by (simp add: providers_simps(2) [of r rs v d])
  qed
  have nc: "\<forall>v d. \<not> collides rs v d"
  proof (intro allI)
    fix v d
    show "\<not> collides rs v d"
      using len [of v d] by (simp add: collides_def)
  qed
  have pos: "\<forall>e \<in> set (entries rs). 0 \<le> missing_percentage (snd (snd e))"
    using Cons.prems(5) by simp
  have fresh: "\<forall>e \<in> set (entries rs). lookup c1 (fst e) (fst (snd e)) = None"
  proof
    fix e assume e: "e \<in> set (entries rs)"
    then have "e \<in> set (providers rs (fst e) (fst (snd e)))"
      by (simp add: providers_def)
    then have "1 \<le> length (providers rs (fst e) (fst (snd e)))"
      by (cases "providers rs (fst e) (fst (snd e))") simp_all
    with len [of "fst e" "fst (snd e)"] have "length (providers [r] (fst e) (fst (snd e))) = 0"
      by linarith
    then have "providers [r] (fst e) (fst (snd e)) = []"
      by simp
    then have "lookup c1 (fst e) (fst (snd e)) = lookup c (fst e) (fst (snd e))"
      using fold_result_lookup [OF 1, of "fst e" "fst (snd e)"] by simp
    then show "lookup c1 (fst e) (fst (snd e)) = None"
      using Cons.prems(4) e by simp
  qed
  have inv1: "summary_invariant c1"
  proof (cases r)
    case None
    then show ?thesis
      using 1 Cons.prems(1) by (simp add: fold_result_def)
  next
    case (Some res)
    have "length (filter (\<lambda>it. fst it = d) (stats res)) \<le> 1" for d
      using len [of "variable res" d] Some by (simp add: providers_single)
    then have dist: "distinct (map fst (stats res))"
      by (rule keys_distinct_if_single)
    have mem: "(variable res, item) \<in> set (entries (r # rs))" if "item \<in> set (stats res)"
      for item
      using that Some by (simp add: result_entries_def)
    have fr: "\<forall>item \<in> set (stats res). lookup c (variable res) (fst item) = None"
    proof
      fix item assume "item \<in> set (stats res)"
      from Cons.prems(4) [rule_format, OF mem [OF this]]
      show "lookup c (variable res) (fst item) = None"
        by simp
    qed
    have ps: "\<forall>item \<in> set (stats res). 0 \<le> missing_percentage (snd item)"
    proof
      fix item assume "item \<in> set (stats res)"
      from Cons.prems(5) [rule_format, OF mem [OF this]]
      show "0 \<le> missing_percentage (snd item)"
        by simp
    qed
    show ?thesis
      using fold_result_invariant [OF Cons.prems(1) _ dist fr ps] 1 Some by simp
  qed
  show ?case
    by (rule Cons.IH [OF inv1 2 nc fresh pos])
qed

lemma summary_invariant_fresh:
  assumes "daily_summary c = Map.empty" and "\<forall>v m. variables c v = Some m \<longrightarrow> m = Map.empty"
  shows "summary_invariant c"
proof -
  have "lookup c v d = None" for v d
    using assms(2) by (auto simp: lookup_def split: option.splits)
  then have "day_entries c d = {}" for d
    by (simp add: day_entries_def)
  then show ?thesis
    using assms(1) by (simp add: summary_invariant_def)
qed

text \<open>
  C2, as stated, fails: two files of the same variable that both have an entry for
  the same date. The later entry replaces the earlier one in \<^verbatim>\<open>variables\<close>, the total
  of the date holds both counts.
\<close>

theorem daily_summary_invariant_counterexample:
  "fold_results air_registered [Some air_jan1, Some air_jan1_again] = Inr air_collided \<and>
   total_missing (the (daily_summary air_collided ''1979-01-01'')) = 3 \<and>
   spec_total_missing air_collided ''1979-01-01'' = 2"
proof -
  have 1: "fold_results air_registered [Some air_jan1, Some air_jan1_again] = Inr air_collided"
    by (simp add: fold_result_def air_registered_def air_jan1_def air_jan1_again_def
        air_collided_def dict_update_def update_summary_def)
  have 2: "total_missing (the (daily_summary air_collided ''1979-01-01'')) = 3"
    by (simp add: air_collided_def)
  have "day_entries air_collided ''1979-01-01'' =
        {(''air'', \<lparr>missing_count = 2, total_points = 4, missing_percentage = 50\<rparr>)}"
    by (auto simp: day_entries_def lookup_def air_collided_def split: if_splits)
  then have 3: "spec_total_missing air_collided ''1979-01-01'' = 2"
    by (simp add: spec_total_missing_def)
  show ?thesis
    using 1 2 3 by simp
qed

lemma update_summary_affected:
  "\<exists>s'. update_summary v ds (d, st) d = Some s' \<and>
        variables_affected s' =
          insert v (case ds d of None \<Rightarrow> {} | Some s \<Rightarrow> variables_affected s)"
  by (simp add: update_summary_def Let_def split: option.splits)

lemma foldl_update_summary_affected:
  "d \<in> fst ` set items \<Longrightarrow>
   \<exists>s'. foldl (update_summary v) ds items d = Some s' \<and>
        variables_affected s' =
          insert v (case ds d of None \<Rightarrow> {} | Some s \<Rightarrow> variables_affected s)"
proof (induction items arbitrary: ds)
  case Nil
  then show ?case by simp
next
  case (Cons item items)
  obtain d0 st where item: "item = (d0, st)"
    by (cases item)
  show ?case
  proof (cases "d \<in> fst ` set items")
    case True
    from Cons.IH [OF True, of "update_summary v ds item"] obtain s' where
      s': "foldl (update_summary v) (update_summary v ds item) items d = Some s'"
      and a: "variables_affected s' =
          insert v (case update_summary v ds item d of None \<Rightarrow> {}
                    | Some s \<Rightarrow> variables_affected s)"
      by blast
    show ?thesis
    proof (cases "d0 = d")
      case True
      from update_summary_affected [of v ds d st] obtain s1 where
        "update_summary v ds (d, st) d = Some s1"
        "variables_affected s1 =
          insert v (case ds d of None \<Rightarrow> {} | Some s \<Rightarrow> variables_affected s)"
        by blast
      then show ?thesis
        using s' a item True by simp
    next
      case False
      then have "update_summary v ds item d = ds d"
        using item by (simp add: update_summary_other)
      then show ?thesis
        using s' a by simp
    qed
  next
    case False
    then have d0: "d0 = d"
      using Cons.prems item by auto
    have "foldl (update_summary v) (update_summary v ds item) items d =
          update_summary v ds item d"
      using False by (rule foldl_update_summary_other)
    then show ?thesis
      using update_summary_affected [of v ds d st] item d0 by simp
  qed
qed

lemma providers_single_nonempty:
  "providers [Some r] v d \<noteq> [] \<longleftrightarrow> v = variable r \<and> d \<in> fst ` set (stats r)"
  by (auto simp: providers_def result_entries_def filter_empty_conv image_iff)

lemma fold_result_entry_variables:
  assumes "fold_result c (Some r) = Inr c'"
  shows "fst ` day_entries c' d =
         fst ` day_entries c d \<union> (if d \<in> fst ` set (stats r) then {variable r} else {})"
proof -
  have "(lookup c' v d \<noteq> None) =
        (lookup c v d \<noteq> None \<or> (v = variable r \<and> d \<in> fst ` set (stats r)))" for v
    using fold_result_lookup [OF assms, of v d] providers_single_nonempty [of r v d]
    by (auto split: list.splits)
  moreover have "fst ` day_entries x d = {v. lookup x v d \<noteq> None}" for x :: "string set catalog"
    by (auto simp: day_entries_def image_iff)
  ultimately show ?thesis
    by auto
qed

lemma fold_result_affected_invariant:
  assumes inv: "affected_invariant c" and f: "fold_result c r = Inr c'"
  shows "affected_invariant c'"
proof (cases r)
  case None
  then show ?thesis
    using inv f by (simp add: fold_result_def)
next
  case (Some res)
  let ?v = "variable res"
  have f': "fold_result c (Some res) = Inr c'"
    using f Some by simp
  have ds: "daily_summary c' = foldl (update_summary ?v) (daily_summary c) (stats res)"
    using f' by (auto simp: fold_result_def split: option.splits)
  have old: "case daily_summary c d of
            None \<Rightarrow> day_entries c d = {}
          | Some s \<Rightarrow> day_entries c d \<noteq> {} \<and> variables_affected s = fst ` day_entries c d" for d
  proof -
    from inv have "case daily_summary c d of
            None \<Rightarrow> day_entries c d = {}
          | Some s \<Rightarrow> day_entries c d \<noteq> {} \<and>
                      variables_affected s = spec_variables_affected c d"
      by (simp add: affected_invariant_def)
    then show ?thesis
      by (simp add: spec_variables_affected_def split: option.splits)
  qed
  have key: "case daily_summary c' d of
            None \<Rightarrow> day_entries c' d = {}
          | Some s \<Rightarrow> day_entries c' d \<noteq> {} \<and> variables_affected s = fst ` day_entries c' d" for d
  proof (cases "d \<in> fst ` set (stats res)")
    case False
    have "daily_summary c' d = daily_summary c d"
      using ds False by (simp add: foldl_update_summary_other)
    moreover have "fst ` day_entries c' d = fst ` day_entries c d"
      using fold_result_entry_variables [OF f', of d] False by simp
    ultimately show ?thesis
      using old [of d] by (auto split: option.splits)
  next
    case True
    from foldl_update_summary_affected [OF True, of ?v "daily_summary c"] obtain s' where
      s': "daily_summary c' d = Some s'"
      and a: "variables_affected s' =
          insert ?v (case daily_summary c d of None \<Rightarrow> {} | Some s \<Rightarrow> variables_affected s)"
      using ds by auto
    have e: "fst ` day_entries c' d = insert ?v (fst ` day_entries c d)"
      using fold_result_entry_variables [OF f', of d] True by simp
    have "(case daily_summary c d of None \<Rightarrow> {} | Some s \<Rightarrow> variables_affected s) =
          fst ` day_entries c d"
      using old [of d] by (auto split: option.splits)
    then have "variables_affected s' = fst ` day_entries c' d"
      using a e by simp
    moreover have "day_entries c' d \<noteq> {}"
      using e by auto
    ultimately show ?thesis
      using s' by simp
  qed
  show ?thesis
    unfolding affected_invariant_def spec_variables_affected_def
    by (intro allI) (rule key)
qed

lemma fold_results_affected_invariant:
  "affected_invariant c \<Longrightarrow> fold_results c rs = Inr c' \<Longrightarrow> affected_invariant c'"
proof (induction rs arbitrary: c)
  case Nil
  then show ?case by simp
next
  case (Cons r rs)
  from Cons.prems(2) obtain c1 where 1: "fold_result c r = Inr c1"
    and 2: "fold_results c1 rs = Inr c'"
    by (auto split: sum.splits)
  show ?case
    by (rule Cons.IH [OF fold_result_affected_invariant [OF Cons.prems(1) 1] 2])
qed

lemma summary_invariant_affected: "summary_invariant c \<Longrightarrow> affected_invariant c"
proof -
  assume inv: "summary_invariant c"
  have "case daily_summary c d of
            None \<Rightarrow> day_entries c d = {}
          | Some s \<Rightarrow> day_entries c d \<noteq> {} \<and>
                      variables_affected s = spec_variables_affected c d" for d
    using summary_invariantD [OF inv, of d] by (auto split: option.splits)
  then show ?thesis
    by (simp add: affected_invariant_def)
qed

lemma sstep_total:
  "(case sstep ds e d of None \<Rightarrow> 0 | Some s \<Rightarrow> total_missing s) =
   (case ds d of None \<Rightarrow> 0 | Some s \<Rightarrow> total_missing s) +
   (if fst (snd e) = d then missing_count (snd (snd e)) else 0)"
  by (simp add: sstep_def update_summary_def Let_def split: option.splits)

lemma foldl_sstep_total:
  "(case foldl sstep ds es d of None \<Rightarrow> 0 | Some s \<Rightarrow> total_missing s) =
   (case ds d of None \<Rightarrow> 0 | Some s \<Rightarrow> total_missing s) +
   sum_list (map (\<lambda>e. missing_count (snd (snd e))) (filter (\<lambda>e. fst (snd e) = d) es))"
proof (induction es arbitrary: ds)
  case Nil
  then show ?case by simp
next
  case (Cons e es)
  show ?case
    using Cons.IH [of "sstep ds e"] sstep_total [of ds e d] by simp
qed

lemma fold_results_total:
  assumes "fold_results c rs = Inr c'" "daily_summary c' d = Some s"
  shows "total_missing s =
    (case daily_summary c d of None \<Rightarrow> 0 | Some s0 \<Rightarrow> total_missing s0) +
    sum_list (map (\<lambda>e. missing_count (snd (snd e)))
                (filter (\<lambda>e. fst (snd e) = d) (entries rs)))"
  using foldl_sstep_total [of "daily_summary c" "entries rs" d]
    fold_results_summary [OF assms(1)] assms(2) by simp

text \<open>
  C2, amended. Start from a catalog whose daily summary agrees with its entries (the
  empty catalog does, and so does one in which folders have just been registered) and
  fold any results. Then for every date of the daily summary the affected variables are
  exactly the variables with an entry for that date. If moreover the results hold no
  key twice, no key that the catalog has already, and no negative percentage (the
  analysis computes none), then the total is the sum of the counts of the entries of
  that date over all variables and the maximum is the greatest percentage among these
  entries. In every case, a collision included: the entry under a key is the last one
  that the results hold for it (that of the catalog when they hold none), and the
  total of a date is what it was before plus the counts of all the items of that date
  that were folded, overwritten ones included.
\<close>

theorem daily_summary_invariant:
  assumes "summary_invariant c" and "fold_results c rs = Inr c'"
  shows "(\<forall>d s. daily_summary c' d = Some s \<longrightarrow>
            variables_affected s = spec_variables_affected c' d) \<and>
         ((\<forall>v d. \<not> collides rs v d) \<longrightarrow>
          (\<forall>e \<in> set (entries rs). lookup c (fst e) (fst (snd e)) = None \<and>
                                   0 \<le> missing_percentage (snd (snd e))) \<longrightarrow>
          (\<forall>d s. daily_summary c' d = Some s \<longrightarrow>
             total_missing s = spec_total_missing c' d \<and>
             max_percentage s = spec_max_percentage c' d)) \<and>
         (\<forall>v d. lookup c' v d =
            (case providers rs v d of
               [] \<Rightarrow> lookup c v d
             | l \<Rightarrow> Some (snd (snd (last l))))) \<and>
         (\<forall>d s. daily_summary c' d = Some s \<longrightarrow>
            total_missing s =
              (case daily_summary c d of None \<Rightarrow> 0 | Some s0 \<Rightarrow> total_missing s0) +
              sum_list (map (\<lambda>e. missing_count (snd (snd e)))
                          (filter (\<lambda>e. fst (snd e) = d) (entries rs))))"
proof -
  have a: "variables_affected s = spec_variables_affected c' d"
    if "daily_summary c' d = Some s" for d s
  proof -
    have "affected_invariant c'"
      by (rule fold_results_affected_invariant [OF summary_invariant_affected [OF assms(1)]
            assms(2)])
    then have "case daily_summary c' d of
            None \<Rightarrow> day_entries c' d = {}
          | Some s \<Rightarrow> day_entries c' d \<noteq> {} \<and>
                      variables_affected s = spec_variables_affected c' d"
      by (simp add: affected_invariant_def)
    then show ?thesis
      using that by simp
  qed
  have b: "total_missing s = spec_total_missing c' d \<and>
           max_percentage s = spec_max_percentage c' d"
    if nc: "\<forall>v d. \<not> collides rs v d"
      and fp: "\<forall>e \<in> set (entries rs). lookup c (fst e) (fst (snd e)) = None \<and>
                                   0 \<le> missing_percentage (snd (snd e))"
      and s: "daily_summary c' d = Some s" for d s
  proof -
    have fresh: "\<forall>e \<in> set (entries rs). lookup c (fst e) (fst (snd e)) = None"
      and pos: "\<forall>e \<in> set (entries rs). 0 \<le> missing_percentage (snd (snd e))"
      using fp by simp_all
    from summary_invariantD [OF fold_results_invariant [OF assms nc fresh pos], of d] s
    show ?thesis
      by simp
  qed
  have ab: "(\<forall>d s. daily_summary c' d = Some s \<longrightarrow>
            variables_affected s = spec_variables_affected c' d) \<and>
         ((\<forall>v d. \<not> collides rs v d) \<longrightarrow>
          (\<forall>e \<in> set (entries rs). lookup c (fst e) (fst (snd e)) = None \<and>
                                   0 \<le> missing_percentage (snd (snd e))) \<longrightarrow>
          (\<forall>d s. daily_summary c' d = Some s \<longrightarrow>
             total_missing s = spec_total_missing c' d \<and>
             max_percentage s = spec_max_percentage c' d))"
    using a b by blast
  have c: "\<forall>v d. lookup c' v d =
            (case providers rs v d of
               [] \<Rightarrow> lookup c v d
             | l \<Rightarrow> Some (snd (snd (last l))))"
    by (intro allI) (rule fold_results_lookup [OF assms(2)])
  have d: "\<forall>d s. daily_summary c' d = Some s \<longrightarrow>
            total_missing s =
              (case daily_summary c d of None \<Rightarrow> 0 | Some s0 \<Rightarrow> total_missing s0) +
              sum_list (map (\<lambda>e. missing_count (snd (snd e)))
                          (filter (\<lambda>e. fst (snd e) = d) (entries rs)))"
    by (intro allI impI) (rule fold_results_total [OF assms(2)])
  show ?thesis
    by (intro conjI conjunct1 [OF ab] conjunct2 [OF ab] c d)
qed

theorem daily_summary_invariant_witness:
  "spec_variables_affected air_two_days ''1979-01-02'' = {''air''} \<and>
   spec_total_missing air_two_days ''1979-01-02'' = 2 \<and>
   spec_max_percentage air_two_days ''1979-01-02'' = 50 \<and>
   lookup air_collided ''air'' ''1979-01-01'' =
     Some \<lparr>missing_count = 2, total_points = 4, missing_percentage = 50\<rparr> \<and>
   total_missing (the (daily_summary air_collided ''1979-01-01'')) = 1 + 2"
proof -
  let ?rs = "[Some air_jan1, None, Some air_jan2]"
  let ?s = "\<lparr>total_missing = 2, variables_affected = {''air''}, max_percentage = 50\<rparr>"
  have i: "summary_invariant air_registered"
    by (rule summary_invariant_fresh) (simp_all add: air_registered_def)
  have f: "fold_results air_registered ?rs = Inr air_two_days"
    by (simp add: fold_result_def air_registered_def air_jan1_def air_jan2_def
        air_two_days_def dict_update_def update_summary_def)
  have n: "\<forall>v d. \<not> collides ?rs v d"
    by (simp add: collides_def providers_def result_entries_def air_jan1_def air_jan2_def)
  have fp: "\<forall>e \<in> set (entries ?rs). lookup air_registered (fst e) (fst (snd e)) = None \<and>
                                   0 \<le> missing_percentage (snd (snd e))"
    by (simp add: result_entries_def air_jan1_def air_jan2_def lookup_def air_registered_def)
  have s: "daily_summary air_two_days ''1979-01-02'' = Some ?s"
    by (simp add: air_two_days_def)
  note t = daily_summary_invariant [OF i f]
  have 1: "variables_affected ?s = spec_variables_affected air_two_days ''1979-01-02''"
    by (rule mp [OF spec [OF spec [OF conjunct1 [OF t]]] s])
  have 2: "total_missing ?s = spec_total_missing air_two_days ''1979-01-02'' \<and>
           max_percentage ?s = spec_max_percentage air_two_days ''1979-01-02''"
    by (rule mp [OF spec [OF spec [OF mp [OF mp [OF conjunct1 [OF conjunct2 [OF t]] n] fp]]] s])
  let ?cs = "[Some air_jan1, Some air_jan1_again]"
  let ?s3 = "\<lparr>total_missing = 3, variables_affected = {''air''}, max_percentage = 50\<rparr>"
  have f3: "fold_results air_registered ?cs = Inr air_collided"
    by (simp add: fold_result_def air_registered_def air_jan1_def air_jan1_again_def
        air_collided_def dict_update_def update_summary_def)
  note u = daily_summary_invariant [OF i f3]
  have p3: "providers ?cs ''air'' ''1979-01-01'' =
      [(''air'', ''1979-01-01'',
        \<lparr>missing_count = 1, total_points = 4, missing_percentage = 25\<rparr>),
       (''air'', ''1979-01-01'',
        \<lparr>missing_count = 2, total_points = 4, missing_percentage = 50\<rparr>)]"
    by (simp add: providers_def result_entries_def air_jan1_def air_jan1_again_def)
  have "lookup air_collided ''air'' ''1979-01-01'' =
      (case providers ?cs ''air'' ''1979-01-01'' of
         [] \<Rightarrow> lookup air_registered ''air'' ''1979-01-01''
       | l \<Rightarrow> Some (snd (snd (last l))))"
    by (rule spec [OF spec [OF conjunct1 [OF conjunct2 [OF conjunct2 [OF u]]]]])
  then have 3: "lookup air_collided ''air'' ''1979-01-01'' =
      Some \<lparr>missing_count = 2, total_points = 4, missing_percentage = 50\<rparr>"
    unfolding p3 by simp
  have s3: "daily_summary air_collided ''1979-01-01'' = Some ?s3"
    by (simp add: air_collided_def)
  have e3: "filter (\<lambda>e. fst (snd e) = ''1979-01-01'') (entries ?cs) =
      [(''air'', ''1979-01-01'',
        \<lparr>missing_count = 1, total_points = 4, missing_percentage = 25\<rparr>),
       (''air'', ''1979-01-01'',
        \<lparr>missing_count = 2, total_points = 4, missing_percentage = 50\<rparr>)]"
    by (simp add: result_entries_def air_jan1_def air_jan1_again_def)
  have b3: "daily_summary air_registered ''1979-01-01'' = None"
    by (simp add: air_registered_def)
  have "total_missing ?s3 =
      (case daily_summary air_registered ''1979-01-01'' of
         None \<Rightarrow> 0 | Some s0 \<Rightarrow> total_missing s0) +
      sum_list (map (\<lambda>e. missing_count (snd (snd e)))
                  (filter (\<lambda>e. fst (snd e) = ''1979-01-01'') (entries ?cs)))"
    by (rule mp [OF spec [OF spec [OF conjunct2 [OF conjunct2 [OF conjunct2 [OF u]]]]] s3])
  then have "total_missing ?s3 = 1 + 2"
    unfolding e3 b3 by simp
  then have 4: "total_missing (the (daily_summary air_collided ''1979-01-01'')) = 1 + 2"
    unfolding s3 by simp
  show ?thesis
    using 1 2 3 4 by simp
qed

subsection \<open>The loop over the variable folders\<close>

lemma analyze_variable:
  "analyze_netcdf_file open_dataset p = Some r \<Longrightarrow> variable r = parent_name p"
  by (auto simp: analyze_netcdf_file_def analyze_body_def Let_def
      split: sum.splits list.splits option.splits if_splits)

lemma folder_results_variable:
  "Some r \<in> set (folder_results fs g) \<Longrightarrow> variable r = g"
  by (auto simp: folder_results_def dest!: analyze_variable [OF sym] split: option.splits)

lemma process_folder_eq:
  "process_folder fs g c =
     (case glob_nc fs g of
        None \<Rightarrow> Inr c
      | Some names \<Rightarrow> fold_results (register g c) (folder_results fs g))"
  by (simp add: process_folder_def register_def folder_results_def Let_def split: option.splits)

lemma fold_results_all_None:
  "\<forall>x \<in> set rs. x = None \<Longrightarrow> fold_results c rs = Inr c"
  by (induction rs) (simp_all add: fold_result_def)

lemma fold_result_other_variable:
  "fold_result c r = Inr c' \<Longrightarrow> (\<forall>res. r = Some res \<longrightarrow> variable res \<noteq> v) \<Longrightarrow>
   variables c' v = variables c v"
  by (auto simp: fold_result_def split: option.splits)

lemma fold_results_other_variable:
  "fold_results c rs = Inr c' \<Longrightarrow> (\<forall>res. Some res \<in> set rs \<longrightarrow> variable res \<noteq> v) \<Longrightarrow>
   variables c' v = variables c v"
proof (induction rs arbitrary: c)
  case Nil
  then show ?case by simp
next
  case (Cons r rs)
  then obtain c1 where 1: "fold_result c r = Inr c1" and 2: "fold_results c1 rs = Inr c'"
    by (auto split: sum.splits)
  have "variables c1 v = variables c v"
    using fold_result_other_variable [OF 1] Cons.prems(2) by simp
  moreover have "variables c' v = variables c1 v"
    using Cons.IH [OF 2] Cons.prems(2) by simp
  ultimately show ?case
    by simp
qed

lemma process_folder_present:
  assumes "glob_nc fs g = Some names"
  shows "\<exists>c'. process_folder fs g c = Inr c' \<and>
           metadata c' = (metadata c)\<lparr>variables_processed :=
                                       variables_processed (metadata c) @ [g]\<rparr> \<and>
           variables c' g \<noteq> None \<and>
           (\<forall>v. v \<noteq> g \<longrightarrow> variables c' v = variables c v) \<and>
           ((\<forall>x \<in> set (folder_results fs g). x = None) \<longrightarrow> variables c' g = Some Map.empty)"
proof -
  have reg: "\<forall>r. Some r \<in> set (folder_results fs g) \<longrightarrow>
               variables (register g c) (variable r) \<noteq> None"
    by (auto simp: register_def dest: folder_results_variable)
  then obtain c' where c': "fold_results (register g c) (folder_results fs g) = Inr c'"
    using fold_results_outcome [of "folder_results fs g" "register g c"] by auto
  have p: "process_folder fs g c = Inr c'"
    using assms c' by (simp add: process_folder_eq)
  have m: "metadata c' = (metadata c)\<lparr>variables_processed :=
                                       variables_processed (metadata c) @ [g]\<rparr>"
    using fold_results_frame [OF c'] by (simp add: register_def)
  have d: "variables c' g \<noteq> None"
    using fold_results_frame [OF c', of g] by (simp add: register_def)
  have o: "variables c' v = variables c v" if "v \<noteq> g" for v
  proof -
    have "\<forall>res. Some res \<in> set (folder_results fs g) \<longrightarrow> variable res \<noteq> v"
      using that by (auto dest: folder_results_variable)
    from fold_results_other_variable [OF c' this] that show ?thesis
      by (simp add: register_def)
  qed
  have e: "variables c' g = Some Map.empty" if "\<forall>x \<in> set (folder_results fs g). x = None"
    using fold_results_all_None [OF that, of "register g c"] c' by (auto simp: register_def)
  show ?thesis
    using p m d o e by blast
qed

lemma process_folder_absent:
  "glob_nc fs g = None \<Longrightarrow> process_folder fs g c = Inr c"
  by (simp add: process_folder_eq)

lemma process_folders_frame:
  "\<exists>c'. process_folders fs folders c = Inr c' \<and>
     created (metadata c') = created (metadata c) \<and>
     base_path (metadata c') = base_path (metadata c) \<and>
     variables_processed (metadata c') =
       variables_processed (metadata c) @ filter (\<lambda>g. glob_nc fs g \<noteq> None) folders \<and>
     (\<forall>v. v \<notin> set folders \<longrightarrow> variables c' v = variables c v)"
proof (induction folders arbitrary: c)
  case Nil
  then show ?case by simp
next
  case (Cons g folders)
  show ?case
  proof (cases "glob_nc fs g")
    case None
    then show ?thesis
      using Cons.IH [of c] by (auto simp: process_folder_absent)
  next
    case (Some names)
    from process_folder_present [OF Some, of c] obtain c1 where
      1: "process_folder fs g c = Inr c1"
      and m: "metadata c1 = (metadata c)\<lparr>variables_processed :=
                                       variables_processed (metadata c) @ [g]\<rparr>"
      and o: "\<forall>v. v \<noteq> g \<longrightarrow> variables c1 v = variables c v"
      by blast
    from Cons.IH [of c1] obtain c' where
      2: "process_folders fs folders c1 = Inr c'"
      and f: "created (metadata c') = created (metadata c1)"
        "base_path (metadata c') = base_path (metadata c1)"
        "variables_processed (metadata c') =
           variables_processed (metadata c1) @ filter (\<lambda>g. glob_nc fs g \<noteq> None) folders"
        "\<forall>v. v \<notin> set folders \<longrightarrow> variables c' v = variables c1 v"
      by blast
    show ?thesis
      using 1 2 m o f Some by simp
  qed
qed

lemma process_folders_group:
  assumes "distinct folders" "g \<in> set folders" "glob_nc fs g = Some names"
  shows "\<exists>c'. process_folders fs folders c = Inr c' \<and> variables c' g \<noteq> None \<and>
           ((\<forall>x \<in> set (folder_results fs g). x = None) \<longrightarrow> variables c' g = Some Map.empty)"
  using assms(1,2)
proof (induction folders arbitrary: c)
  case Nil
  then show ?case by simp
next
  case (Cons f folders)
  show ?case
  proof (cases "f = g")
    case True
    from process_folder_present [OF assms(3), of c] obtain c1 where
      1: "process_folder fs g c = Inr c1" and d: "variables c1 g \<noteq> None"
      and e: "(\<forall>x \<in> set (folder_results fs g). x = None) \<longrightarrow> variables c1 g = Some Map.empty"
      by blast
    have "g \<notin> set folders"
      using Cons.prems(1) True by simp
    with process_folders_frame [of fs folders c1] obtain c' where
      "process_folders fs folders c1 = Inr c'" "variables c' g = variables c1 g"
      by blast
    then show ?thesis
      using 1 d e True by simp
  next
    case False
    then have g: "g \<in> set folders" and dist: "distinct folders"
      using Cons.prems by simp_all
    from process_folders_frame [of fs "[f]" c] obtain c1 where
      "process_folders fs [f] c = Inr c1"
      by blast
    then have 1: "process_folder fs f c = Inr c1"
      by (simp split: sum.splits)
    from Cons.IH [OF dist g, of c1] 1 show ?thesis
      by simp
  qed
qed

text \<open>
  C10. For a folder of the fixed list that exists: the loop body first appends the
  folder to \<^verbatim>\<open>variables_processed\<close> and gives it an empty mapping and only then folds
  the results of its files (first conjunct). The run returns a catalog whose
  \<^verbatim>\<open>variables_processed\<close> is the list of the folders that exist, in the order of the
  fixed list; the folder is in it and has a mapping in \<^verbatim>\<open>variables\<close>, and the
  mapping is empty when the folder has no files or all its files give
  \<^verbatim>\<open>None\<close>.
\<close>

theorem group_registered_before_analysis:
  assumes "g \<in> set var_folders" and "glob_nc fs g = Some names"
  shows "(\<forall>c0. process_folder fs g c0 =
            fold_results
              (c0\<lparr>metadata := (metadata c0)\<lparr>variables_processed :=
                                              variables_processed (metadata c0) @ [g]\<rparr>,
                   variables := (variables c0)(g \<mapsto> Map.empty)\<rparr>)
              (map (analyze_netcdf_file (xr_open_dataset fs))
                 (map (\<lambda>n. \<lparr>parent_name = g, file_name = n\<rparr>) names))) \<and>
         (\<exists>c. create_daily_catalog now set_iter fs bp = Inr c \<and>
              variables_processed (metadata c) =
                filter (\<lambda>v. glob_nc fs v \<noteq> None) var_folders \<and>
              g \<in> set (variables_processed (metadata c)) \<and>
              variables c g \<noteq> None \<and>
              ((\<forall>n \<in> set names.
                  analyze_netcdf_file (xr_open_dataset fs)
                    \<lparr>parent_name = g, file_name = n\<rparr> = None) \<longrightarrow>
               variables c g = Some Map.empty))"
proof -
  have a: "process_folder fs g c0 =
            fold_results
              (c0\<lparr>metadata := (metadata c0)\<lparr>variables_processed :=
                                              variables_processed (metadata c0) @ [g]\<rparr>,
                   variables := (variables c0)(g \<mapsto> Map.empty)\<rparr>)
              (map (analyze_netcdf_file (xr_open_dataset fs))
                 (map (\<lambda>n. \<lparr>parent_name = g, file_name = n\<rparr>) names))" for c0
    using assms(2) by (simp add: process_folder_def Let_def)
  have dist: "distinct var_folders"
    by (simp add: var_folders_def)
  let ?e = "empty_catalog now bp"
  from process_folders_group [OF dist assms, of ?e] obtain c' where
    run: "process_folders fs var_folders ?e = Inr c'" and reg: "variables c' g \<noteq> None"
    and emp: "(\<forall>x \<in> set (folder_results fs g). x = None) \<longrightarrow> variables c' g = Some Map.empty"
    by blast
  from process_folders_frame [of fs var_folders ?e] run
  have vp: "variables_processed (metadata c') = filter (\<lambda>v. glob_nc fs v \<noteq> None) var_folders"
    by (auto simp: empty_catalog_def)
  have mem: "g \<in> set (variables_processed (metadata c'))"
    using vp assms by simp
  have res: "folder_results fs g =
      map (analyze_netcdf_file (xr_open_dataset fs))
        (map (\<lambda>n. \<lparr>parent_name = g, file_name = n\<rparr>) names)"
    using assms(2) by (simp add: folder_results_def)
  have emp': "variables c' g = Some Map.empty"
    if "\<forall>n \<in> set names. analyze_netcdf_file (xr_open_dataset fs)
                    \<lparr>parent_name = g, file_name = n\<rparr> = None"
    using emp that by (simp add: res)
  have "create_daily_catalog now set_iter fs bp = Inr (finalize set_iter c')"
    using run by (simp add: create_daily_catalog_def)
  moreover have "metadata (finalize set_iter c') = metadata c'"
    "variables (finalize set_iter c') = variables c'"
    by (simp_all add: finalize_def)
  ultimately have "\<exists>c. create_daily_catalog now set_iter fs bp = Inr c \<and>
              variables_processed (metadata c) =
                filter (\<lambda>v. glob_nc fs v \<noteq> None) var_folders \<and>
              g \<in> set (variables_processed (metadata c)) \<and>
              variables c g \<noteq> None \<and>
              ((\<forall>n \<in> set names.
                  analyze_netcdf_file (xr_open_dataset fs)
                    \<lparr>parent_name = g, file_name = n\<rparr> = None) \<longrightarrow>
               variables c g = Some Map.empty)"
    using vp mem reg emp' by auto
  then show ?thesis
    using a by blast
qed

theorem group_registered_before_analysis_witness:
  "variables_processed (metadata (projr (create_daily_catalog ''2024-01-01T00:00:00''
       sorted_list_of_set failing_fs ''/data''))) = [''air'', ''hgt''] \<and>
   variables (projr (create_daily_catalog ''2024-01-01T00:00:00''
       sorted_list_of_set failing_fs ''/data'')) ''air'' = Some Map.empty \<and>
   variables (projr (create_daily_catalog ''2024-01-01T00:00:00''
       sorted_list_of_set failing_fs ''/data'')) ''hgt'' = Some Map.empty"
proof -
  let ?run = "create_daily_catalog ''2024-01-01T00:00:00'' sorted_list_of_set failing_fs ''/data''"
  have air: "''air'' \<in> set var_folders" and hgt: "''hgt'' \<in> set var_folders"
    by (simp_all add: var_folders_def)
  have ga: "glob_nc failing_fs ''air'' = Some []"
    and gh: "glob_nc failing_fs ''hgt'' = Some [''hgt.1979.nc'']"
    by (simp_all add: failing_fs_def)
  have fl: "filter (\<lambda>v. glob_nc failing_fs v \<noteq> None) var_folders = [''air'', ''hgt'']"
    by (simp add: failing_fs_def var_folders_def)
  have na: "\<forall>n \<in> set []. analyze_netcdf_file (xr_open_dataset failing_fs)
                    \<lparr>parent_name = ''air'', file_name = n\<rparr> = None"
    by simp
  have nh: "\<forall>n \<in> set [''hgt.1979.nc'']. analyze_netcdf_file (xr_open_dataset failing_fs)
                    \<lparr>parent_name = ''hgt'', file_name = n\<rparr> = None"
    by (simp add: analyze_netcdf_file_def analyze_body_def failing_fs_def)
  from conjunct2 [OF group_registered_before_analysis [OF air ga,
        where now = "''2024-01-01T00:00:00''" and set_iter = sorted_list_of_set
          and bp = "''/data''"]] na fl
  obtain c where c: "?run = Inr c"
    and 1: "variables_processed (metadata c) = [''air'', ''hgt'']"
    and 2: "variables c ''air'' = Some Map.empty"
    by auto
  from conjunct2 [OF group_registered_before_analysis [OF hgt gh,
        where now = "''2024-01-01T00:00:00''" and set_iter = sorted_list_of_set
          and bp = "''/data''"]] nh
  obtain c' where c': "?run = Inr c'" and 3: "variables c' ''hgt'' = Some Map.empty"
    by auto
  show ?thesis
    using c c' 1 2 3 by simp
qed

subsection \<open>From sets to lists\<close>

lemma sstep_affected:
  "affected_within V ds \<Longrightarrow> fst e \<in> V \<Longrightarrow> affected_within V (sstep ds e)"
  by (auto simp: affected_within_def sstep_def update_summary_def Let_def
      split: option.splits if_splits)

lemma foldl_sstep_affected:
  "affected_within V ds \<Longrightarrow> \<forall>e \<in> set es. fst e \<in> V \<Longrightarrow>
   affected_within V (foldl sstep ds es)"
  by (induction es arbitrary: ds) (simp_all add: sstep_affected)

lemma entries_variable:
  "e \<in> set (entries rs) \<Longrightarrow> \<exists>r. Some r \<in> set rs \<and> fst e = variable r"
  by (auto simp: entries_def result_entries_def split: option.splits)

lemma fold_results_affected:
  assumes "fold_results c rs = Inr c'" and "affected_within V (daily_summary c)"
    and "\<forall>r. Some r \<in> set rs \<longrightarrow> variable r \<in> V"
  shows "affected_within V (daily_summary c')"
proof -
  have "\<forall>e \<in> set (entries rs). fst e \<in> V"
    using assms(3) by (auto dest: entries_variable)
  then show ?thesis
    using foldl_sstep_affected [OF assms(2)] fold_results_summary [OF assms(1)] by simp
qed

lemma process_folder_affected:
  assumes "process_folder fs g c = Inr c'" and "g \<in> V"
    and "affected_within V (daily_summary c)"
  shows "affected_within V (daily_summary c')"
proof (cases "glob_nc fs g")
  case None
  then show ?thesis
    using assms by (simp add: process_folder_eq)
next
  case (Some names)
  then have f: "fold_results (register g c) (folder_results fs g) = Inr c'"
    using assms(1) by (simp add: process_folder_eq)
  have "affected_within V (daily_summary (register g c))"
    using assms(3) by (simp add: register_def)
  moreover have "\<forall>r. Some r \<in> set (folder_results fs g) \<longrightarrow> variable r \<in> V"
    using assms(2) by (auto dest: folder_results_variable)
  ultimately show ?thesis
    by (rule fold_results_affected [OF f])
qed

lemma process_folders_affected:
  "process_folders fs folders c = Inr c' \<Longrightarrow> set folders \<subseteq> V \<Longrightarrow>
   affected_within V (daily_summary c) \<Longrightarrow> affected_within V (daily_summary c')"
proof (induction folders arbitrary: c)
  case Nil
  then show ?case by simp
next
  case (Cons g folders)
  from Cons.prems(1) obtain c1 where 1: "process_folder fs g c = Inr c1"
    and 2: "process_folders fs folders c1 = Inr c'"
    by (auto split: sum.splits)
  have "affected_within V (daily_summary c1)"
    using process_folder_affected [OF 1 _ Cons.prems(3)] Cons.prems(2) by simp
  then show ?case
    using Cons.IH [OF 2] Cons.prems(2) by simp
qed

text \<open>
  C4, as stated, fails: the last loop calls \<^verbatim>\<open>list\<close> on each set and nothing sorts.
  With two folders affected on the same date and a set iterated in the order
  \<^verbatim>\<open>hgt\<close>, \<^verbatim>\<open>air\<close>, the run returns a catalog whose list for that date is not
  sorted.
\<close>

theorem finalize_unsorted_counterexample:
  "\<not> isl (create_daily_catalog ''2024-01-01T00:00:00'' reverse_iter two_folder_fs ''/data'') \<and>
   daily_summary
      (projr (create_daily_catalog ''2024-01-01T00:00:00'' reverse_iter two_folder_fs ''/data''))
      ''1979-01-02'' =
     Some \<lparr>total_missing = 2, variables_affected = [''hgt'', ''air''], max_percentage = 25\<rparr> \<and>
   \<not> sorted [''hgt'', ''air'']"
proof -
  have 1: "\<not> isl (create_daily_catalog ''2024-01-01T00:00:00'' reverse_iter two_folder_fs
                    ''/data'')"
    by code_simp
  have 2: "daily_summary
      (projr (create_daily_catalog ''2024-01-01T00:00:00'' reverse_iter two_folder_fs ''/data''))
      ''1979-01-02'' =
     Some \<lparr>total_missing = 2, variables_affected = [''hgt'', ''air''], max_percentage = 25\<rparr>"
    by code_simp
  have 3: "\<not> sorted [''hgt'', ''air'']"
    by simp
  show ?thesis
    using 1 2 3 by (intro conjI)
qed

text \<open>
  C4, amended. Whatever the order in which Python iterates over a set (it lists each
  element once), the run returns a catalog that differs from the folded one only in
  that each set of affected variables has become a list: the list of the iteration
  order, which holds exactly the elements of the set, each once. The totals, the
  maxima, the variables and the metadata are those of the folded catalog.
\<close>

theorem finalize_lists_each_variable_once:
  assumes "\<forall>S. S \<subseteq> set var_folders \<longrightarrow> set (set_iter S) = S \<and> distinct (set_iter S)"
  shows "\<exists>c0 c. process_folders fs var_folders (empty_catalog now bp) = Inr c0 \<and>
           create_daily_catalog now set_iter fs bp = Inr c \<and>
           metadata c = metadata c0 \<and> variables c = variables c0 \<and>
           (\<forall>d. (daily_summary c d = None \<longleftrightarrow> daily_summary c0 d = None) \<and>
                (\<forall>s0. daily_summary c0 d = Some s0 \<longrightarrow>
                   (\<exists>s. daily_summary c d = Some s \<and>
                        total_missing s = total_missing s0 \<and>
                        max_percentage s = max_percentage s0 \<and>
                        variables_affected s = set_iter (variables_affected s0) \<and>
                        set (variables_affected s) = variables_affected s0 \<and>
                        distinct (variables_affected s))))"
proof -
  let ?e = "empty_catalog now bp"
  from process_folders_frame [of fs var_folders ?e] obtain c0 where
    run: "process_folders fs var_folders ?e = Inr c0"
    by blast
  have "affected_within (set var_folders) (daily_summary ?e)"
    by (simp add: affected_within_def empty_catalog_def)
  then have w: "affected_within (set var_folders) (daily_summary c0)"
    using process_folders_affected [OF run] by simp
  let ?c = "finalize set_iter c0"
  have c: "create_daily_catalog now set_iter fs bp = Inr ?c"
    using run by (simp add: create_daily_catalog_def)
  have mv: "metadata ?c = metadata c0" "variables ?c = variables c0"
    by (simp_all add: finalize_def)
  have n: "daily_summary ?c d = None \<longleftrightarrow> daily_summary c0 d = None" for d
    by (simp add: finalize_def split: option.splits)
  have s: "\<exists>s. daily_summary ?c d = Some s \<and>
                        total_missing s = total_missing s0 \<and>
                        max_percentage s = max_percentage s0 \<and>
                        variables_affected s = set_iter (variables_affected s0) \<and>
                        set (variables_affected s) = variables_affected s0 \<and>
                        distinct (variables_affected s)"
    if "daily_summary c0 d = Some s0" for d s0
  proof -
    have "variables_affected s0 \<subseteq> set var_folders"
      using w that by (auto simp: affected_within_def)
    then have "set (set_iter (variables_affected s0)) = variables_affected s0"
      "distinct (set_iter (variables_affected s0))"
      using assms by simp_all
    then show ?thesis
      using that by (simp add: finalize_def)
  qed
  show ?thesis
    using run c mv n s by blast
qed

theorem finalize_lists_each_variable_once_witness:
  "set (variables_affected (the (daily_summary
      (projr (create_daily_catalog ''2024-01-01T00:00:00'' reverse_iter two_folder_fs ''/data''))
      ''1979-01-02''))) = {''air'', ''hgt''} \<and>
   distinct (variables_affected (the (daily_summary
      (projr (create_daily_catalog ''2024-01-01T00:00:00'' reverse_iter two_folder_fs ''/data''))
      ''1979-01-02'')))"
proof -
  have dv: "distinct var_folders"
    by (simp add: var_folders_def)
  have "set (reverse_iter S) = S \<inter> set var_folders" for S
    unfolding reverse_iter_def by auto
  moreover have "distinct (reverse_iter S)" for S
    unfolding reverse_iter_def using dv by simp
  ultimately have contract: "\<forall>S. S \<subseteq> set var_folders \<longrightarrow>
      set (reverse_iter S) = S \<and> distinct (reverse_iter S)"
    by auto
  have "\<exists>c0 c. process_folders two_folder_fs var_folders
            (empty_catalog ''2024-01-01T00:00:00'' ''/data'') = Inr c0 \<and>
           create_daily_catalog ''2024-01-01T00:00:00'' reverse_iter two_folder_fs ''/data'' =
             Inr c \<and>
           metadata c = metadata c0 \<and> variables c = variables c0 \<and>
           (\<forall>d. (daily_summary c d = None \<longleftrightarrow> daily_summary c0 d = None) \<and>
                (\<forall>s0. daily_summary c0 d = Some s0 \<longrightarrow>
                   (\<exists>s. daily_summary c d = Some s \<and>
                        total_missing s = total_missing s0 \<and>
                        max_percentage s = max_percentage s0 \<and>
                        variables_affected s = reverse_iter (variables_affected s0) \<and>
                        set (variables_affected s) = variables_affected s0 \<and>
                        distinct (variables_affected s))))"
    by (rule finalize_lists_each_variable_once [OF contract])
  then obtain c0 c where
    run: "process_folders two_folder_fs var_folders
            (empty_catalog ''2024-01-01T00:00:00'' ''/data'') = Inr c0"
    and c: "create_daily_catalog ''2024-01-01T00:00:00'' reverse_iter two_folder_fs ''/data'' =
            Inr c"
    and s: "\<forall>d. (daily_summary c d = None \<longleftrightarrow> daily_summary c0 d = None) \<and>
                (\<forall>s0. daily_summary c0 d = Some s0 \<longrightarrow>
                   (\<exists>s. daily_summary c d = Some s \<and>
                        total_missing s = total_missing s0 \<and>
                        max_percentage s = max_percentage s0 \<and>
                        variables_affected s = reverse_iter (variables_affected s0) \<and>
                        set (variables_affected s) = variables_affected s0 \<and>
                        distinct (variables_affected s)))"
    by (elim exE conjE)
  let ?s0 = "\<lparr>total_missing = 2, variables_affected = {''air'', ''hgt''}, max_percentage = 25\<rparr>"
  have "daily_summary (projr (process_folders two_folder_fs var_folders
            (empty_catalog ''2024-01-01T00:00:00'' ''/data''))) ''1979-01-02'' = Some ?s0"
    by code_simp
  then have s0: "daily_summary c0 ''1979-01-02'' = Some ?s0"
    unfolding run by simp
  note sd = conjunct2 [OF spec [OF s, of "''1979-01-02''"]]
  note sm = mp [OF spec [OF sd, of ?s0] s0]
  from sm obtain s1 where s1: "daily_summary c ''1979-01-02'' = Some s1"
    and a: "set (variables_affected s1) = variables_affected ?s0"
    and b: "distinct (variables_affected s1)"
    by (elim exE conjE)
  have pc: "projr (create_daily_catalog ''2024-01-01T00:00:00'' reverse_iter two_folder_fs
              ''/data'') = c"
    unfolding c by simp
  have "the (daily_summary c ''1979-01-02'') = s1"
    unfolding s1 by simp
  then show ?thesis
    unfolding pc using a b by simp
qed

end
